theory Spec2Isabelle
  imports Complex_Main "HOL-Library.Sublist" "HOL-Library.Code_Target_Numeral"
begin

section \<open>JavaScript values used by the metrics handlers\<close>

subsection \<open>Numbers\<close>

text \<open>
  A JavaScript number is a binary64 value: \<open>NaN\<close>, \<open>Infinity\<close>, \<open>-Infinity\<close>, or a finite
  double, which \<open>Fin\<close> represents by the real number it denotes. The sign of zero is not
  modelled: both zeros are \<open>Fin 0\<close>.
\<close>

datatype number = Fin real | PInf | NInf | NaN

text \<open>
  Rounding a real to binary64, to nearest with ties to even. \<open>expo x\<close> is the binary
  exponent of \<open>x\<close>, not below the exponent \<open>-1022\<close> of the subnormal range; it is found by
  trying the exponents from 1024 downwards. The doubles around \<open>x\<close> are the whole
  multiples of \<open>ulp x\<close>, and \<open>near x\<close> is the nearest of them. A result of magnitude
  \<open>2^1024\<close> or more overflows to an infinity.
\<close>

definition round_even :: "real \<Rightarrow> int" where
  "round_even q =
     (let f = \<lfloor>q\<rfloor>; d = q - of_int f
      in if d < 1 / 2 then f else if 1 / 2 < d then f + 1 else if even f then f else f + 1)"

fun bexp :: "real \<Rightarrow> nat \<Rightarrow> int" where
  "bexp a 0 = - 1022"
| "bexp a (Suc n) = (if 2 powi (int n - 1021) \<le> a then int n - 1021 else bexp a n)"

definition expo :: "real \<Rightarrow> int" where
  "expo x = bexp \<bar>x\<bar> 2046"

definition ulp :: "real \<Rightarrow> real" where
  "ulp x = 2 powi (expo x - 52)"

definition near :: "real \<Rightarrow> real" where
  "near x = of_int (round_even (x / ulp x)) * ulp x"

definition clip :: "real \<Rightarrow> number" where
  "clip r = (if 2 ^ 1024 \<le> r then PInf else if r \<le> - (2 ^ 1024) then NInf else Fin r)"

definition round64 :: "real \<Rightarrow> number" where
  "round64 x = clip (near x)"

text \<open>A real is a double when rounding leaves it as it is.\<close>

definition is_double :: "real \<Rightarrow> bool" where
  "is_double r = (round64 r = Fin r)"

fun js_neg :: "number \<Rightarrow> number" where
  "js_neg (Fin a) = Fin (- a)"
| "js_neg PInf = NInf"
| "js_neg NInf = PInf"
| "js_neg NaN = NaN"

fun js_add :: "number \<Rightarrow> number \<Rightarrow> number" where
  "js_add NaN y = NaN"
| "js_add x NaN = NaN"
| "js_add (Fin a) (Fin b) = round64 (a + b)"
| "js_add PInf NInf = NaN"
| "js_add NInf PInf = NaN"
| "js_add PInf y = PInf"
| "js_add NInf y = NInf"
| "js_add (Fin a) y = y"

definition js_sub :: "number \<Rightarrow> number \<Rightarrow> number" where
  "js_sub x y = js_add x (js_neg y)"

fun num_sign :: "number \<Rightarrow> int" where
  "num_sign (Fin a) = (if a < 0 then - 1 else 1)"
| "num_sign PInf = 1"
| "num_sign NInf = - 1"
| "num_sign NaN = 0"

definition signed_inf :: "int \<Rightarrow> number" where
  "signed_inf s = (if s < 0 then NInf else PInf)"

fun js_mul :: "number \<Rightarrow> number \<Rightarrow> number" where
  "js_mul NaN y = NaN"
| "js_mul x NaN = NaN"
| "js_mul (Fin a) (Fin b) = round64 (a * b)"
| "js_mul (Fin a) y = (if a = 0 then NaN else signed_inf (num_sign (Fin a) * num_sign y))"
| "js_mul x (Fin b) = (if b = 0 then NaN else signed_inf (num_sign x * num_sign (Fin b)))"
| "js_mul x y = signed_inf (num_sign x * num_sign y)"

fun js_div :: "number \<Rightarrow> number \<Rightarrow> number" where
  "js_div NaN y = NaN"
| "js_div x NaN = NaN"
| "js_div (Fin a) (Fin b) =
     (if b = 0 then (if a = 0 then NaN else signed_inf (num_sign (Fin a)))
      else round64 (a / b))"
| "js_div (Fin a) y = Fin 0"
| "js_div x (Fin b) = signed_inf (num_sign x * num_sign (Fin b))"
| "js_div x y = NaN"

definition trunc :: "real \<Rightarrow> int" where
  "trunc r = (if 0 \<le> r then \<lfloor>r\<rfloor> else \<lceil>r\<rceil>)"

text \<open>
  The remainder operator \<open>%\<close>: the result has the sign of the dividend. The remainder
  of two doubles is a double, so nothing is rounded; the same holds for \<open>Math.floor\<close>.
\<close>

fun js_mod :: "number \<Rightarrow> number \<Rightarrow> number" where
  "js_mod NaN y = NaN"
| "js_mod x NaN = NaN"
| "js_mod (Fin a) (Fin b) = (if b = 0 then NaN else Fin (a - b * of_int (trunc (a / b))))"
| "js_mod (Fin a) y = Fin a"
| "js_mod x y = NaN"

fun Math_floor :: "number \<Rightarrow> number" where
  "Math_floor (Fin a) = Fin (of_int \<lfloor>a\<rfloor>)"
| "Math_floor x = x"

fun js_lt :: "number \<Rightarrow> number \<Rightarrow> bool" where
  "js_lt NaN y = False"
| "js_lt x NaN = False"
| "js_lt (Fin a) (Fin b) = (a < b)"
| "js_lt x NInf = False"
| "js_lt NInf y = True"
| "js_lt PInf y = False"
| "js_lt (Fin a) PInf = True"

definition js_gt :: "number \<Rightarrow> number \<Rightarrow> bool" where
  "js_gt x y = js_lt y x"

text \<open>\<open>x >= y\<close> is false when either side is \<open>NaN\<close>, otherwise the negation of \<open>x < y\<close>.\<close>

definition js_ge :: "number \<Rightarrow> number \<Rightarrow> bool" where
  "js_ge x y = (x \<noteq> NaN \<and> y \<noteq> NaN \<and> \<not> js_lt x y)"

text \<open>\<open>ToBoolean\<close> on a number, and \<open>x || d\<close> on numbers.\<close>

fun num_truthy :: "number \<Rightarrow> bool" where
  "num_truthy (Fin a) = (a \<noteq> 0)"
| "num_truthy NaN = False"
| "num_truthy x = True"

definition or_num :: "number \<Rightarrow> number \<Rightarrow> number" where
  "or_num x d = (if num_truthy x then x else d)"

subsection \<open>Strings\<close>

text \<open>
  A string is its list of code units, restricted to the range U+0000..U+00FF that
  \<^typ>\<open>char\<close> offers. In that range the white space of \<open>trim\<close> and of the regular
  expression class \<open>\s\<close> is TAB, LF, VT, FF, CR, SPACE and NBSP.
\<close>

definition isWhiteSpace :: "char \<Rightarrow> bool" where
  "isWhiteSpace c = (c \<in> set [CHR 0x09, CHR 0x0A, CHR 0x0B, CHR 0x0C, CHR 0x0D, CHR '' '', CHR 0xA0])"

definition trim :: "string \<Rightarrow> string" where
  "trim s = rev (dropWhile isWhiteSpace (rev (dropWhile isWhiteSpace s)))"

text \<open>\<open>s.includes(t)\<close>: \<open>t\<close> occurs in \<open>s\<close> as a contiguous substring.\<close>

fun includes_str :: "string \<Rightarrow> string \<Rightarrow> bool" where
  "includes_str [] t = (t = [])"
| "includes_str (c # cs) t = (prefix t (c # cs) \<or> includes_str cs t)"

text \<open>
  \<open>s.split(sep)\<close> for a non-empty separator string: scan from the left, cut at each
  occurrence of \<open>sep\<close> and continue behind it. \<open>cur\<close> holds the current piece, reversed.
\<close>

function split_from :: "string \<Rightarrow> string \<Rightarrow> string \<Rightarrow> string list" where
  "split_from sep cur [] = [rev cur]"
| "split_from sep cur (c # cs) =
     (if sep \<noteq> [] \<and> prefix sep (c # cs)
      then rev cur # split_from sep [] (drop (length sep) (c # cs))
      else split_from sep (c # cur) cs)"
  by pat_completeness auto
termination
  by (relation "measure (\<lambda>(sep, cur, s). length s)") auto

definition split :: "string \<Rightarrow> string \<Rightarrow> string list" where
  "split s sep = split_from sep [] s"

text \<open>
  \<open>s.split(/\s+/)\<close>: cut at each maximal run of white space. A run at the start or at
  the end of \<open>s\<close> leaves an empty first or last piece.
\<close>

function split_ws_from :: "string \<Rightarrow> string \<Rightarrow> string list" where
  "split_ws_from cur [] = [rev cur]"
| "split_ws_from cur (c # cs) =
     (if isWhiteSpace c
      then rev cur # split_ws_from [] (dropWhile isWhiteSpace cs)
      else split_ws_from (c # cur) cs)"
  by pat_completeness auto
termination
  by (relation "measure (\<lambda>(cur, s). length s)")
     (auto simp: length_dropWhile_le less_Suc_eq_le)

definition split_ws :: "string \<Rightarrow> string list" where
  "split_ws s = split_ws_from [] s"

text \<open>\<open>s.replace(/"/g, '')\<close> deletes every double quote.\<close>

definition strip_quotes :: "string \<Rightarrow> string" where
  "strip_quotes s = filter (\<lambda>c. c \<noteq> CHR 0x22) s"

text \<open>\<open>s.replace('%', '')\<close> with a string pattern deletes the first occurrence only.\<close>

fun remove_first :: "char \<Rightarrow> string \<Rightarrow> string" where
  "remove_first p [] = []"
| "remove_first p (c # cs) = (if c = p then cs else c # remove_first p cs)"

text \<open>
  \<open>parts[i]\<close> is \<open>undefined\<close> beyond the end of the array; \<open>undefined\<close> is \<open>None\<close>.
\<close>

definition elem_at :: "'a list \<Rightarrow> nat \<Rightarrow> 'a option" where
  "elem_at xs i = (if i < length xs then Some (xs ! i) else None)"

definition str_truthy :: "string option \<Rightarrow> bool" where
  "str_truthy a = (case a of None \<Rightarrow> False | Some s \<Rightarrow> s \<noteq> [])"

text \<open>\<open>a || b\<close> on possibly undefined strings, and \<open>a || 'literal'\<close>.\<close>

definition or_undef :: "string option \<Rightarrow> string option \<Rightarrow> string option" where
  "or_undef a b = (if str_truthy a then a else b)"

definition or_str :: "string option \<Rightarrow> string \<Rightarrow> string" where
  "or_str a d = (case a of None \<Rightarrow> d | Some s \<Rightarrow> if s = [] then d else s)"

text \<open>\<open>ToString\<close> of a possibly undefined string, as applied by \<open>parseInt\<close> and \<open>parseFloat\<close>.\<close>

definition ToString_opt :: "string option \<Rightarrow> string" where
  "ToString_opt a = (case a of None \<Rightarrow> ''undefined'' | Some s \<Rightarrow> s)"

subsection \<open>Parsing and printing numbers\<close>

definition digit_val :: "char \<Rightarrow> nat option" where
  "digit_val c =
     (let n = (of_char c :: nat)
      in if 48 \<le> n \<and> n \<le> 57 then Some (n - 48)
         else if 97 \<le> n \<and> n \<le> 122 then Some (n - 87)
         else if 65 \<le> n \<and> n \<le> 90 then Some (n - 55)
         else None)"

definition is_digit_in :: "nat \<Rightarrow> char \<Rightarrow> bool" where
  "is_digit_in radix c = (case digit_val c of None \<Rightarrow> False | Some d \<Rightarrow> d < radix)"

definition digits_value :: "nat \<Rightarrow> string \<Rightarrow> nat" where
  "digits_value radix ds =
     foldl (\<lambda>acc c. acc * radix + (case digit_val c of None \<Rightarrow> 0 | Some d \<Rightarrow> d)) 0 ds"

text \<open>
  \<open>parseInt(s)\<close> without a radix: skip leading white space, take an optional sign, switch
  to radix 16 behind \<open>0x\<close> or \<open>0X\<close>, and read the longest run of digits; \<open>NaN\<close> when
  that run is empty, otherwise the double nearest to the integer read.
\<close>

definition parseInt :: "string \<Rightarrow> number" where
  "parseInt s =
     (let S = dropWhile isWhiteSpace s;
          sign = (if prefix ''-'' S then - 1 else 1 :: real);
          S1 = (if prefix ''-'' S \<or> prefix ''+'' S then drop 1 S else S);
          hex = (prefix ''0x'' S1 \<or> prefix ''0X'' S1);
          R = (if hex then 16 else 10);
          S2 = (if hex then drop 2 S1 else S1);
          Z = takeWhile (is_digit_in R) S2
      in if Z = [] then NaN else round64 (sign * real (digits_value R Z)))"

text \<open>
  \<open>parseFloat(s)\<close>: skip leading white space and read the longest prefix that is a
  signed decimal literal: \<open>Infinity\<close>, or digits with an optional fraction and an
  optional exponent; \<open>NaN\<close> when there is none, otherwise the double nearest to the
  decimal read.
\<close>

definition parseFloat :: "string \<Rightarrow> number" where
  "parseFloat s =
     (let S = dropWhile isWhiteSpace s;
          neg = prefix ''-'' S;
          S1 = (if prefix ''-'' S \<or> prefix ''+'' S then drop 1 S else S)
      in if prefix ''Infinity'' S1 then (if neg then NInf else PInf)
         else
           (let ip = takeWhile (is_digit_in 10) S1;
                r1 = dropWhile (is_digit_in 10) S1;
                dot = prefix ''.'' r1;
                fp = (if dot then takeWhile (is_digit_in 10) (drop 1 r1) else []);
                r2 = (if dot then dropWhile (is_digit_in 10) (drop 1 r1) else r1);
                r3 = drop 1 r2;
                eneg = prefix ''-'' r3;
                r4 = (if prefix ''-'' r3 \<or> prefix ''+'' r3 then drop 1 r3 else r3);
                ed = (if prefix ''e'' r2 \<or> prefix ''E'' r2 then takeWhile (is_digit_in 10) r4 else []);
                m = real (digits_value 10 ip) + real (digits_value 10 fp) / 10 ^ length fp;
                v = (if eneg then m / 10 ^ digits_value 10 ed else m * 10 ^ digits_value 10 ed)
            in if ip = [] \<and> fp = [] then NaN else round64 (if neg then - v else v)))"

function nat_digits :: "nat \<Rightarrow> string" where
  "nat_digits n =
     (if n < 10 then [''0123456789'' ! n]
      else nat_digits (n div 10) @ [''0123456789'' ! (n mod 10)])"
  by pat_completeness auto
termination
  by (relation "measure id") auto

declare nat_digits.simps [simp del]

text \<open>
  \<open>Number::toString\<close>, as applied by a template literal. An integer below \<open>10^21\<close> in
  magnitude prints its decimal digits. Every other finite value prints the shortest
  decimal that reads back as the same double; that rendering is the parameter
  \<open>shortest\<close>.
\<close>

definition NumberToString :: "(real \<Rightarrow> string) \<Rightarrow> number \<Rightarrow> string" where
  "NumberToString shortest x =
     (case x of
        NaN \<Rightarrow> ''NaN''
      | PInf \<Rightarrow> ''Infinity''
      | NInf \<Rightarrow> ''-Infinity''
      | Fin r \<Rightarrow>
          if r = of_int \<lfloor>r\<rfloor> \<and> \<bar>r\<bar> < 10 ^ 21
          then (if r < 0 then ''-'' @ nat_digits (nat (- \<lfloor>r\<rfloor>)) else nat_digits (nat \<lfloor>r\<rfloor>))
          else shortest r)"

subsection \<open>Arrays\<close>

text \<open>
  \<open>Array.prototype.sort(comparefn)\<close> is a stable sort; a comparator result of \<open>NaN\<close>
  counts as \<open>+0\<close>. The model inserts each element, from the right, in front of the
  first element it does not have to follow.
\<close>

definition SortCompare :: "('a \<Rightarrow> 'a \<Rightarrow> number) \<Rightarrow> 'a \<Rightarrow> 'a \<Rightarrow> number" where
  "SortCompare comparefn x y = (case comparefn x y of NaN \<Rightarrow> Fin 0 | v \<Rightarrow> v)"

fun sort_insert :: "('a \<Rightarrow> 'a \<Rightarrow> number) \<Rightarrow> 'a \<Rightarrow> 'a list \<Rightarrow> 'a list" where
  "sort_insert comparefn x [] = [x]"
| "sort_insert comparefn x (y # ys) =
     (if js_gt (SortCompare comparefn x y) (Fin 0) then y # sort_insert comparefn x ys
      else x # y # ys)"

definition Array_sort :: "('a \<Rightarrow> 'a \<Rightarrow> number) \<Rightarrow> 'a list \<Rightarrow> 'a list" where
  "Array_sort comparefn xs = foldr (sort_insert comparefn) xs []"

section \<open>The handlers of \<open>main.ts\<close>\<close>

text \<open>
  What the handlers read from the host (\<open>os.cpus()\<close>, \<open>os.loadavg()\<close>,
  \<open>process.platform\<close>) and the outcome of \<open>execAsync\<close> are arguments of the model.
  A rejected promise is \<open>Inl\<close> of the error. Writing to the console is not modelled.
\<close>

datatype js_error = Error string

subsection \<open>\<open>get-cpu-usage\<close>\<close>

record cpu_times =
  user :: number
  nice :: number
  sys :: number
  idle :: number
  irq :: number

record cpu_info =
  model :: string
  speed :: number
  times_c :: cpu_times

record cpu_usage =
  usage :: number
  cores :: nat
  loadAvg :: "number list"

definition totalIdle :: "cpu_info list \<Rightarrow> number" where
  "totalIdle cpus = foldl (\<lambda>acc cpu. js_add acc (idle (times_c cpu))) (Fin 0) cpus"

definition totalTick :: "cpu_info list \<Rightarrow> number" where
  "totalTick cpus =
     foldl (\<lambda>acc cpu.
        js_add (js_add (js_add (js_add (js_add acc (user (times_c cpu))) (nice (times_c cpu)))
          (sys (times_c cpu))) (idle (times_c cpu))) (irq (times_c cpu)))
       (Fin 0) cpus"

definition get_cpu_usage :: "cpu_info list \<Rightarrow> number list \<Rightarrow> cpu_usage" where
  "get_cpu_usage cpus loadavg =
     \<lparr>usage = js_mul (js_div (js_sub (totalTick cpus) (totalIdle cpus)) (totalTick cpus)) (Fin 100),
      cores = length cpus,
      loadAvg = loadavg\<rparr>"

subsection \<open>\<open>get-processes\<close>\<close>

record win_process =
  w_name :: string
  w_pid :: number
  w_memory :: string
  w_cpu :: string

record posix_process =
  name :: string
  pid :: number
  cpu :: number
  memory :: number
  vsz :: number
  rss :: number
  tty :: string
  stat :: string
  start :: string
  time :: string

datatype process_entry = Win32Process win_process | PosixProcess posix_process

definition win32_process_of_line :: "string \<Rightarrow> win_process" where
  \<open>win32_process_of_line line =
     (let parts = map strip_quotes (split line ''","'')
      in \<lparr>w_name = or_str (elem_at parts 0) '''',
          w_pid = or_num (parseInt (ToString_opt (elem_at parts 1))) (Fin 0),
          w_memory = or_str (elem_at parts 4) ''0 K'',
          w_cpu = ''N/A''\<rparr>)\<close>

definition win32_process_lines :: "string \<Rightarrow> string list" where
  \<open>win32_process_lines output =
     filter (\<lambda>line. trim line \<noteq> [] \<and> \<not> includes_str line ''"Image Name"'')
       (split output ''\<newline>'')\<close>

definition parseFunction_win32_processes :: "string \<Rightarrow> win_process list" where
  "parseFunction_win32_processes output =
     take 50 (filter (\<lambda>process. js_gt (w_pid process) (Fin 0))
       (map win32_process_of_line (win32_process_lines output)))"

definition posix_process_of_line :: "string \<Rightarrow> posix_process" where
  "posix_process_of_line line =
     (let parts = split_ws (trim line)
      in \<lparr>name = or_str (or_undef (elem_at parts 10) (elem_at parts 0)) '''',
          pid = or_num (parseInt (ToString_opt (elem_at parts 1))) (Fin 0),
          cpu = or_num (parseFloat (ToString_opt (elem_at parts 2))) (Fin 0),
          memory = or_num (parseFloat (ToString_opt (elem_at parts 3))) (Fin 0),
          vsz = or_num (parseInt (ToString_opt (elem_at parts 4))) (Fin 0),
          rss = or_num (parseInt (ToString_opt (elem_at parts 5))) (Fin 0),
          tty = or_str (elem_at parts 6) '''',
          stat = or_str (elem_at parts 7) '''',
          start = or_str (elem_at parts 8) '''',
          time = or_str (elem_at parts 9) ''''\<rparr>)"

definition nonblank_lines :: "string \<Rightarrow> string list" where
  "nonblank_lines output = filter (\<lambda>line. trim line \<noteq> []) (split output ''\<newline>'')"

text \<open>The records of the POSIX rule before they are sorted: one per kept line, in line order.\<close>

definition posix_processes_unsorted :: "string \<Rightarrow> posix_process list" where
  "posix_processes_unsorted output =
     filter (\<lambda>process. js_gt (pid process) (Fin 0))
       (map posix_process_of_line (nonblank_lines output))"

definition by_cpu_desc :: "posix_process \<Rightarrow> posix_process \<Rightarrow> number" where
  "by_cpu_desc a b = js_sub (cpu b) (cpu a)"

definition parseFunction_posix_processes :: "string \<Rightarrow> posix_process list" where
  "parseFunction_posix_processes output =
     take 50 (Array_sort by_cpu_desc (posix_processes_unsorted output))"

text \<open>
  The handler: the platform picks the command and the parser; a rejected \<open>execAsync\<close>
  is caught and answered by the empty array. The result is \<open>Inr\<close> of the value the
  handler resolves to, \<open>Inl\<close> would be an error that escapes the handler.
\<close>

definition get_processes ::
  "string \<Rightarrow> (string \<Rightarrow> js_error + string) \<Rightarrow> js_error + process_entry list" where
  "get_processes platform execAsync =
     (let (command, parseFunction) =
        (if platform = ''win32''
         then (''tasklist /FO CSV /NH'', \<lambda>output. map Win32Process (parseFunction_win32_processes output))
         else (''ps aux --no-headers'', \<lambda>output. map PosixProcess (parseFunction_posix_processes output)))
      in case execAsync command of
           Inr stdout \<Rightarrow> Inr (parseFunction stdout)
         | Inl error \<Rightarrow> Inr [])"

subsection \<open>\<open>get-disk-usage\<close>\<close>

record win_disk =
  w_filesystem :: "string option"
  w_size :: number
  w_used :: number
  w_available :: number
  w_usePercent :: number
  w_mounted :: "string option"

record posix_disk =
  filesystem :: string
  size_d :: string
  used :: string
  available :: string
  usePercent :: number
  mounted :: string

datatype disk_entry = Win32Disk win_disk | PosixDisk posix_disk

definition win32_disk_of_line :: "string \<Rightarrow> win_disk" where
  "win32_disk_of_line line =
     (let parts = split_ws (trim line);
          caption = elem_at parts 0;
          freeSpace = or_num (parseInt (ToString_opt (elem_at parts 1))) (Fin 0);
          size = or_num (parseInt (ToString_opt (elem_at parts 2))) (Fin 0);
          usedSpace = js_sub size freeSpace
      in \<lparr>w_filesystem = caption,
          w_size = size,
          w_used = usedSpace,
          w_available = freeSpace,
          w_usePercent = (if js_gt size (Fin 0) then js_mul (js_div usedSpace size) (Fin 100) else Fin 0),
          w_mounted = caption\<rparr>)"

definition parseFunction_win32_disk :: "string \<Rightarrow> win_disk list" where
  "parseFunction_win32_disk output =
     map win32_disk_of_line
       (filter (\<lambda>line. trim line \<noteq> [] \<and> \<not> includes_str line ''Caption'') (split output ''\<newline>''))"

definition posix_disk_of_line :: "string \<Rightarrow> posix_disk" where
  "posix_disk_of_line line =
     (let parts = split_ws (trim line)
      in \<lparr>filesystem = or_str (elem_at parts 0) '''',
          size_d = or_str (elem_at parts 1) '''',
          used = or_str (elem_at parts 2) '''',
          available = or_str (elem_at parts 3) '''',
          usePercent =
            or_num (parseInt (ToString_opt (map_option (remove_first CHR ''%'') (elem_at parts 4)))) (Fin 0),
          mounted = or_str (elem_at parts 5) ''''\<rparr>)"

definition parseFunction_posix_disk :: "string \<Rightarrow> posix_disk list" where
  "parseFunction_posix_disk output =
     map posix_disk_of_line
       (filter (\<lambda>line. trim line \<noteq> [] \<and> \<not> includes_str line ''Filesystem'') (split output ''\<newline>''))"

definition get_disk_usage ::
  "string \<Rightarrow> (string \<Rightarrow> js_error + string) \<Rightarrow> js_error + disk_entry list" where
  "get_disk_usage platform execAsync =
     (let (command, parseFunction) =
        (if platform = ''win32''
         then (''wmic logicaldisk get size,freespace,caption'', \<lambda>output. map Win32Disk (parseFunction_win32_disk output))
         else (''df -h'', \<lambda>output. map PosixDisk (parseFunction_posix_disk output)))
      in case execAsync command of
           Inr stdout \<Rightarrow> Inr (parseFunction stdout)
         | Inl error \<Rightarrow> Inr [])"

subsection \<open>\<open>formatUptime\<close>\<close>

definition formatUptime :: "(real \<Rightarrow> string) \<Rightarrow> number \<Rightarrow> string" where
  "formatUptime shortest seconds =
     (let days = Math_floor (js_div seconds (Fin 86400));
          hours = Math_floor (js_div (js_mod seconds (Fin 86400)) (Fin 3600));
          minutes = Math_floor (js_div (js_mod seconds (Fin 3600)) (Fin 60))
      in if js_gt days (Fin 0)
         then NumberToString shortest days @ ''d '' @ NumberToString shortest hours @ ''h ''
                @ NumberToString shortest minutes @ ''m''
         else if js_gt hours (Fin 0)
         then NumberToString shortest hours @ ''h '' @ NumberToString shortest minutes @ ''m''
         else NumberToString shortest minutes @ ''m'')"

section \<open>Notions of the specification\<close>

text \<open>The real value of a finite number.\<close>

fun num_val :: "number \<Rightarrow> real" where
  "num_val (Fin a) = a"
| "num_val x = 0"

fun is_nonneg :: "number \<Rightarrow> bool" where
  "is_nonneg (Fin a) = (0 \<le> a)"
| "is_nonneg x = False"

text \<open>A number that is finite, not negative and whole.\<close>

fun is_whole :: "number \<Rightarrow> bool" where
  "is_whole (Fin a) = (0 \<le> a \<and> a = of_int \<lfloor>a\<rfloor>)"
| "is_whole x = False"

text \<open>A value the number type holds, other than \<open>NaN\<close>.\<close>

fun ordered_value :: "number \<Rightarrow> bool" where
  "ordered_value (Fin a) = is_double a"
| "ordered_value NaN = False"
| "ordered_value x = True"


text \<open>A core whose five tick counters are finite and not negative.\<close>

definition nonneg_ticks :: "cpu_info \<Rightarrow> bool" where
  "nonneg_ticks c =
     (is_nonneg (user (times_c c)) \<and> is_nonneg (nice (times_c c)) \<and> is_nonneg (sys (times_c c))
      \<and> is_nonneg (idle (times_c c)) \<and> is_nonneg (irq (times_c c)))"

definition whole_ticks :: "cpu_info \<Rightarrow> bool" where
  "whole_ticks c =
     (is_whole (user (times_c c)) \<and> is_whole (nice (times_c c)) \<and> is_whole (sys (times_c c))
      \<and> is_whole (idle (times_c c)) \<and> is_whole (irq (times_c c)))"

definition zero_ticks :: "cpu_info \<Rightarrow> bool" where
  "zero_ticks c =
     (user (times_c c) = Fin 0 \<and> nice (times_c c) = Fin 0 \<and> sys (times_c c) = Fin 0
      \<and> idle (times_c c) = Fin 0 \<and> irq (times_c c) = Fin 0)"

text \<open>The total of one core, and the two sums over the cores of a snapshot.\<close>

definition core_total :: "cpu_info \<Rightarrow> real" where
  "core_total c =
     num_val (user (times_c c)) + num_val (nice (times_c c)) + num_val (sys (times_c c))
       + num_val (idle (times_c c)) + num_val (irq (times_c c))"

definition sum_idle :: "cpu_info list \<Rightarrow> real" where
  "sum_idle cpus = (\<Sum>c\<leftarrow>cpus. num_val (idle (times_c c)))"

definition sum_ticks :: "cpu_info list \<Rightarrow> real" where
  "sum_ticks cpus = (\<Sum>c\<leftarrow>cpus. core_total c)"

text \<open>
  The uptime formatter as the specification words it, with the floor function and the
  mathematical remainder on the reals.
\<close>

definition real_mod :: "real \<Rightarrow> real \<Rightarrow> real" where
  "real_mod x m = x - m * of_int \<lfloor>x / m\<rfloor>"

definition UptimeFormatter_spec :: "(real \<Rightarrow> string) \<Rightarrow> real \<Rightarrow> string" where
  "UptimeFormatter_spec shortest seconds =
     (let days = \<lfloor>seconds / 86400\<rfloor>;
          hours = \<lfloor>real_mod seconds 86400 / 3600\<rfloor>;
          minutes = \<lfloor>real_mod seconds 3600 / 60\<rfloor>;
          str = (\<lambda>n. NumberToString shortest (Fin (of_int n)))
      in if days > 0 then str days @ ''d '' @ str hours @ ''h '' @ str minutes @ ''m''
         else if hours > 0 then str hours @ ''h '' @ str minutes @ ''m''
         else str minutes @ ''m'')"

text \<open>The \<open>pid\<close> of an entry of either shape.\<close>

fun entry_pid :: "process_entry \<Rightarrow> number" where
  "entry_pid (Win32Process p) = w_pid p"
| "entry_pid (PosixProcess p) = pid p"

section \<open>Facts about rounding\<close>

lemma round_even_err: "\<bar>of_int (round_even q) - q\<bar> \<le> 1 / 2"
  unfolding round_even_def Let_def by (auto; linarith)

lemma round_even_int [simp]: "round_even (of_int n) = n"
  by (simp add: round_even_def)

lemma round_even_floor: "\<lfloor>q\<rfloor> \<le> round_even q \<and> round_even q \<le> \<lfloor>q\<rfloor> + 1"
  by (simp add: round_even_def Let_def)

lemma round_even_mono: "q \<le> q' \<Longrightarrow> round_even q \<le> round_even q'"
proof -
  assume le: "q \<le> q'"
  then have fl: "\<lfloor>q\<rfloor> \<le> \<lfloor>q'\<rfloor>" by (rule floor_mono)
  show ?thesis
  proof (cases "\<lfloor>q\<rfloor> = \<lfloor>q'\<rfloor>")
    case True
    with le show ?thesis by (auto simp: round_even_def Let_def)
  next
    case False
    with fl have "\<lfloor>q\<rfloor> + 1 \<le> \<lfloor>q'\<rfloor>" by simp
    with round_even_floor [of q] round_even_floor [of q'] show ?thesis by linarith
  qed
qed

lemma bexp_range: "- 1022 \<le> bexp a n \<and> bexp a n \<le> int n - 1022"
  by (induction n) auto

lemma bexp_lower: "bexp a n = - 1022 \<or> 2 powi (bexp a n) \<le> a"
  by (induction n) auto

lemma bexp_upper: "a < 2 powi (int n - 1021) \<Longrightarrow> a < 2 powi (bexp a n + 1)"
proof (induction n)
  case 0
  then show ?case by simp
next
  case (Suc n)
  have e: "int (Suc n) - 1021 = int n - 1021 + 1" by simp
  show ?case
  proof (cases "2 powi (int n - 1021) \<le> a")
    case True
    with Suc.prems e show ?thesis by simp
  next
    case False
    then have "a < 2 powi (int n - 1021)" by simp
    with Suc.IH False show ?thesis by simp
  qed
qed

lemma bexp_mono: "a \<le> b \<Longrightarrow> bexp a n \<le> bexp b n"
proof (induction n)
  case 0
  then show ?case by simp
next
  case (Suc n)
  with bexp_range [of a n] show ?case by auto
qed

lemma expo_ge: "- 1022 \<le> expo x" and expo_le: "expo x \<le> 1024"
  using bexp_range [of "\<bar>x\<bar>" 2046] by (simp_all add: expo_def)

lemma expo_lower: "expo x = - 1022 \<or> 2 powi (expo x) \<le> \<bar>x\<bar>"
  using bexp_lower [of "\<bar>x\<bar>" 2046] by (simp add: expo_def)

lemma expo_upper: "\<bar>x\<bar> < 2 powi 1025 \<Longrightarrow> \<bar>x\<bar> < 2 powi (expo x + 1)"
  using bexp_upper [of "\<bar>x\<bar>" 2046] by (simp add: expo_def)

lemma expo_mono: "\<bar>x\<bar> \<le> \<bar>y\<bar> \<Longrightarrow> expo x \<le> expo y"
  by (simp add: expo_def bexp_mono)

lemma expo_abs: "expo (- x) = expo x"
  by (simp add: expo_def)

lemma pow2_mono: "a \<le> b \<Longrightarrow> (2::real) powi a \<le> 2 powi b"
  by (rule power_int_increasing) simp_all

lemma pow2_strict: "a < b \<Longrightarrow> (2::real) powi a < 2 powi b"
  by (rule power_int_strict_increasing) simp_all

lemma ulp_pos [simp]: "0 < ulp x"
  by (simp add: ulp_def)

lemma expo_le_iff: "- 1022 \<le> k \<Longrightarrow> \<bar>x\<bar> < 2 powi (k + 1) \<Longrightarrow> expo x \<le> k"
proof (rule ccontr)
  assume k: "- 1022 \<le> k" and x: "\<bar>x\<bar> < 2 powi (k + 1)" and "\<not> expo x \<le> k"
  then have g: "k + 1 \<le> expo x" by simp
  with k have "expo x \<noteq> - 1022" by simp
  with expo_lower [of x] have "2 powi (expo x) \<le> \<bar>x\<bar>" by simp
  moreover from g have "(2::real) powi (k + 1) \<le> 2 powi (expo x)" by (rule pow2_mono)
  ultimately show False using x by simp
qed

lemma expo_ge_iff: "k \<le> 1024 \<Longrightarrow> 2 powi k \<le> \<bar>x\<bar> \<Longrightarrow> k \<le> expo x"
proof (rule ccontr)
  assume k: "k \<le> 1024" and x: "2 powi k \<le> \<bar>x\<bar>" and "\<not> k \<le> expo x"
  then have g: "expo x + 1 \<le> k" by simp
  have "\<bar>x\<bar> < 2 powi 1025"
  proof (rule ccontr)
    assume "\<not> \<bar>x\<bar> < 2 powi 1025"
    then have "2 powi 1024 \<le> \<bar>x\<bar>" using pow2_mono [of 1024 1025] by simp
    then have "bexp \<bar>x\<bar> 2046 = 1024" by (simp add: numeral_eq_Suc)
    then show False using g k by (simp add: expo_def)
  qed
  then have "\<bar>x\<bar> < 2 powi (expo x + 1)" by (rule expo_upper)
  moreover from g have "(2::real) powi (expo x + 1) \<le> 2 powi k" by (rule pow2_mono)
  ultimately show False using x by simp
qed

lemma expo_eqI:
  "- 1022 \<le> e \<Longrightarrow> e \<le> 1024 \<Longrightarrow> 2 powi e \<le> \<bar>x\<bar> \<Longrightarrow> \<bar>x\<bar> < 2 powi (e + 1) \<Longrightarrow> expo x = e"
  using expo_le_iff [of e x] expo_ge_iff [of e x] by simp

lemma expo_subnormal: "\<bar>x\<bar> < 2 powi (- 1022) \<Longrightarrow> expo x = - 1022"
  using expo_lower [of x] expo_ge [of x] pow2_mono [of "- 1022" "expo x"] by force

lemma ulp_nonneg [simp]: "0 \<le> ulp x"
  using ulp_pos [of x] by (rule less_imp_le)

lemma ulp_neq0 [simp]: "ulp x \<noteq> 0"
  using ulp_pos [of x] by (rule less_imp_neq [symmetric])

lemma round64_clip: "round64 x = clip (near x)"
  by (simp add: round64_def)

lemma near_err: "\<bar>near x - x\<bar> \<le> ulp x / 2"
proof -
  have "\<bar>of_int (round_even (x / ulp x)) - x / ulp x\<bar> \<le> 1 / 2" by (rule round_even_err)
  then have "\<bar>of_int (round_even (x / ulp x)) - x / ulp x\<bar> * ulp x \<le> 1 / 2 * ulp x"
    by (rule mult_right_mono) simp
  moreover have "\<bar>of_int (round_even (x / ulp x)) - x / ulp x\<bar> * ulp x = \<bar>near x - x\<bar>"
  proof -
    have "\<bar>of_int (round_even (x / ulp x)) - x / ulp x\<bar> * ulp x
          = \<bar>(of_int (round_even (x / ulp x)) - x / ulp x) * ulp x\<bar>"
      by (simp add: abs_mult)
    also have "(of_int (round_even (x / ulp x)) - x / ulp x) * ulp x = near x - x"
      using ulp_pos [of x] by (simp add: near_def left_diff_distrib)
    finally show ?thesis .
  qed
  ultimately show ?thesis by simp
qed

lemma near_exact:
  assumes "x = of_int m * 2 powi g" and "expo x - 52 \<le> g"
  shows "near x = x"
proof -
  define k where "k = nat (g - (expo x - 52))"
  define u where "u = ulp x"
  have up: "0 < u" by (simp add: u_def)
  have g: "g = (expo x - 52) + int k" using assms(2) by (simp add: k_def)
  have "2 powi g = u * 2 ^ k"
    by (simp add: g power_int_add u_def ulp_def)
  with assms(1) have e: "x = of_int (m * 2 ^ k) * u" by simp
  then have "x / u = of_int (m * 2 ^ k)" using up by simp
  then have "round_even (x / u) = m * 2 ^ k" by (simp only: round_even_int)
  then have "near x = of_int (m * 2 ^ k) * u" by (simp add: near_def u_def)
  with e show ?thesis by simp
qed

lemma near_mono_nonneg:
  assumes "0 \<le> x" and "x \<le> y"
  shows "near x \<le> near y"
proof -
  have exy: "expo x \<le> expo y" using assms by (intro expo_mono) simp
  show ?thesis
  proof (cases "expo x = expo y")
    case True
    then have u: "ulp x = ulp y" by (simp add: ulp_def)
    have "x / ulp y \<le> y / ulp y" using assms(2) by (simp add: divide_right_mono)
    then have "round_even (x / ulp y) \<le> round_even (y / ulp y)" by (rule round_even_mono)
    then have "(of_int (round_even (x / ulp y)) :: real) \<le> of_int (round_even (y / ulp y))" by simp
    then show ?thesis unfolding near_def u by (rule mult_right_mono) simp
  next
    case False
    with exy have lt: "expo x + 1 \<le> expo y" by simp
    have ey: "expo y \<noteq> - 1022" using lt expo_ge [of x] by simp
    with expo_lower [of y] have ly: "2 powi (expo y) \<le> y" using assms by simp
    have "2 powi (expo y) / ulp y = (2::real) ^ 52"
      by (simp add: ulp_def flip: power_int_diff)
    moreover have "2 powi (expo y) / ulp y \<le> y / ulp y" using ly by (simp add: divide_right_mono)
    ultimately have "of_int (2 ^ 52) \<le> y / ulp y" by simp
    then have "round_even (of_int (2 ^ 52)) \<le> round_even (y / ulp y)" by (rule round_even_mono)
    then have "(2::real) ^ 52 \<le> of_int (round_even (y / ulp y))"
      by (simp only: round_even_int) (metis of_int_le_iff of_int_numeral of_int_power)
    then have "2 ^ 52 * ulp y \<le> near y" unfolding near_def by (rule mult_right_mono) simp
    moreover have "2 ^ 52 * ulp y = 2 powi (expo y)"
      by (simp add: ulp_def power_int_diff)
    ultimately have ny: "2 powi (expo y) \<le> near y" by simp
    have "expo x \<le> 1023" using lt expo_le [of y] by simp
    have "\<bar>x\<bar> < 2 powi 1025"
    proof (rule ccontr)
      assume "\<not> \<bar>x\<bar> < 2 powi 1025"
      then have "2 powi 1024 \<le> \<bar>x\<bar>" using pow2_mono [of 1024 1025] by simp
      then have "1024 \<le> expo x" by (intro expo_ge_iff) simp_all
      with \<open>expo x \<le> 1023\<close> show False by simp
    qed
    then have "\<bar>x\<bar> < 2 powi (expo x + 1)" by (rule expo_upper)
    then have ux: "x < 2 powi (expo x + 1)" by simp
    have "2 powi (expo x + 1) / ulp x = (2::real) ^ 53"
      by (simp add: ulp_def flip: power_int_diff)
    moreover have "x / ulp x \<le> 2 powi (expo x + 1) / ulp x" using ux by (simp add: divide_right_mono)
    ultimately have "x / ulp x \<le> of_int (2 ^ 53)" by simp
    then have "round_even (x / ulp x) \<le> round_even (of_int (2 ^ 53))" by (rule round_even_mono)
    then have "of_int (round_even (x / ulp x)) \<le> (2::real) ^ 53"
      by (simp only: round_even_int) (metis of_int_le_iff of_int_numeral of_int_power)
    then have "near x \<le> 2 ^ 53 * ulp x" unfolding near_def by (rule mult_right_mono) simp
    moreover have "2 ^ 53 * ulp x = 2 powi (expo x + 1)"
      by (simp add: ulp_def power_int_diff power_int_add)
    ultimately have "near x \<le> 2 powi (expo x + 1)" by simp
    also have "\<dots> \<le> 2 powi (expo y)" using lt by (rule pow2_mono)
    also note ny
    finally show ?thesis .
  qed
qed


lemma near_nonpos: "x \<le> 0 \<Longrightarrow> near x \<le> 0"
proof -
  assume "x \<le> 0"
  then have "x / ulp x \<le> 0" by (simp add: divide_nonpos_pos)
  then have "round_even (x / ulp x) \<le> round_even (of_int 0)" by (intro round_even_mono) simp
  then have "round_even (x / ulp x) \<le> 0" by (simp only: round_even_int)
  then show ?thesis by (simp add: near_def mult_nonpos_nonneg)
qed

lemma round64_not_NaN [simp]: "round64 x \<noteq> NaN"
  by (simp add: round64_clip clip_def)

lemma round64_Fin_iff: "round64 x = Fin r \<longleftrightarrow> r = near x \<and> \<bar>near x\<bar> < 2 ^ 1024"
  by (auto simp: round64_clip clip_def)

lemma round64_exact:
  assumes "x = of_int m * 2 powi g" and "expo x - 52 \<le> g" and "\<bar>x\<bar> < 2 ^ 1024"
  shows "round64 x = Fin x"
  using near_exact [OF assms(1,2)] assms(3) by (simp add: round64_Fin_iff)

lemma round64_int:
  assumes "\<bar>n\<bar> \<le> 2 ^ 53"
  shows "round64 (of_int n) = Fin (of_int n)"
proof (cases "\<bar>n\<bar> = 2 ^ 53")
  case True
  then have a: "\<bar>real_of_int n\<bar> = 2 ^ 53"
    by (metis of_int_abs of_int_numeral of_int_power)
  then have "\<bar>real_of_int n\<bar> < 2 powi (53 + 1)" by simp
  then have e: "expo (of_int n) \<le> 53" by (intro expo_le_iff) simp_all
  have "n = 2 ^ 53 \<or> n = - (2 ^ 53)" using True by linarith
  then have "real_of_int n = of_int (n div 2) * 2 powi 1" by auto
  moreover have "expo (of_int n) - 52 \<le> 1" using e by simp
  moreover have "\<bar>real_of_int n\<bar> < 2 ^ 1024" using a by simp
  ultimately show ?thesis by (rule round64_exact)
next
  case False
  with assms have "\<bar>n\<bar> < 2 ^ 53" by simp
  then have a: "\<bar>real_of_int n\<bar> < 2 ^ 53"
    by (metis of_int_abs of_int_less_iff of_int_numeral of_int_power)
  then have "\<bar>real_of_int n\<bar> < 2 powi (52 + 1)" by simp
  then have e: "expo (of_int n) \<le> 52" by (intro expo_le_iff) simp_all
  have "real_of_int n = of_int n * 2 powi 0" by simp
  moreover have "expo (of_int n) - 52 \<le> 0" using e by simp
  moreover have "\<bar>real_of_int n\<bar> < 2 ^ 1024" using a by simp
  ultimately show ?thesis by (rule round64_exact)
qed

lemma round64_0 [simp]: "round64 0 = Fin 0"
  using round64_int [of 0] by simp

lemma round64_1 [simp]: "round64 1 = Fin 1"
  using round64_int [of 1] by simp

lemma round64_100 [simp]: "round64 100 = Fin 100"
  using round64_int [of 100] by simp

lemma near_abs_le:
  assumes "\<bar>x\<bar> < 2 powi 1025"
  shows "\<bar>near x\<bar> \<le> 2 powi (expo x + 1)"
proof -
  have ux: "\<bar>x\<bar> < 2 powi (expo x + 1)" using assms by (rule expo_upper)
  have d: "2 powi (expo x + 1) / ulp x = (2::real) ^ 53"
    by (simp add: ulp_def flip: power_int_diff)
  have "\<bar>x\<bar> / ulp x \<le> 2 powi (expo x + 1) / ulp x" using ux by (simp add: divide_right_mono)
  with d have b: "\<bar>x\<bar> / ulp x \<le> 2 ^ 53" by simp
  have "x / ulp x \<le> \<bar>x\<bar> / ulp x" by (intro divide_right_mono) simp_all
  moreover have "(- \<bar>x\<bar>) / ulp x \<le> x / ulp x" by (intro divide_right_mono) simp_all
  ultimately have "x / ulp x \<le> of_int (2 ^ 53)" and "of_int (- (2 ^ 53)) \<le> x / ulp x"
    using b by simp_all
  then have "round_even (x / ulp x) \<le> round_even (of_int (2 ^ 53))"
    and "round_even (of_int (- (2 ^ 53))) \<le> round_even (x / ulp x)"
    by (auto intro: round_even_mono)
  then have "round_even (x / ulp x) \<le> 2 ^ 53" and "- (2 ^ 53) \<le> round_even (x / ulp x)"
    by (simp_all only: round_even_int)
  then have "\<bar>round_even (x / ulp x)\<bar> \<le> 2 ^ 53" by simp
  then have "\<bar>real_of_int (round_even (x / ulp x))\<bar> \<le> 2 ^ 53"
    by (metis of_int_abs of_int_le_iff of_int_numeral of_int_power)
  then have A: "\<bar>real_of_int (round_even (x / ulp x))\<bar> * ulp x \<le> 2 ^ 53 * ulp x"
    by (rule mult_right_mono) simp
  have B: "2 ^ 53 * ulp x = 2 powi (expo x + 1)"
    by (simp add: ulp_def power_int_diff power_int_add)
  have "\<bar>near x\<bar> = \<bar>real_of_int (round_even (x / ulp x))\<bar> * ulp x"
    by (simp add: near_def abs_mult)
  with A show ?thesis unfolding B by (simp only:)
qed

lemma round64_idem:
  assumes "round64 x = Fin r"
  shows "round64 r = Fin r"
proof -
  from assms have r: "r = near x" and fin: "\<bar>near x\<bar> < 2 ^ 1024" by (simp_all add: round64_Fin_iff)
  have small: "\<bar>x\<bar> < 2 powi 1025"
  proof (rule ccontr)
    assume "\<not> \<bar>x\<bar> < 2 powi 1025"
    then have big: "2 powi 1025 \<le> \<bar>x\<bar>" by simp
    have "expo x \<le> 1024" by (rule expo_le)
    then have "ulp x \<le> 2 powi 972" unfolding ulp_def by (intro pow2_mono) simp
    with near_err [of x] have "\<bar>near x - x\<bar> \<le> 2 powi 972 / 2" by simp
    with big have "2 powi 1025 - 2 powi 972 / 2 \<le> \<bar>near x\<bar>" by linarith
    moreover have "(2::real) ^ 1024 \<le> 2 powi 1025 - 2 powi 972 / 2" by simp
    ultimately show False using fin by linarith
  qed
  then have le: "\<bar>r\<bar> \<le> 2 powi (expo x + 1)" unfolding r by (rule near_abs_le)
  have fr: "\<bar>r\<bar> < 2 ^ 1024" using fin r by simp
  show ?thesis
  proof (cases "\<bar>r\<bar> = 2 powi (expo x + 1)")
    case True
    have pp: "0 < (2::real) powi (expo x + 1)" by simp
    have g: "r = of_int (if 0 \<le> r then 1 else - 1) * 2 powi (expo x + 1)"
    proof (cases "0 \<le> r")
      case True
      with \<open>\<bar>r\<bar> = 2 powi (expo x + 1)\<close> show ?thesis by simp
    next
      case False
      with \<open>\<bar>r\<bar> = 2 powi (expo x + 1)\<close> have "r = - (2 powi (expo x + 1))" by linarith
      with False show ?thesis by simp
    qed
    have "\<bar>r\<bar> < 2 powi (expo x + 1 + 1)" using True pow2_strict [of "expo x + 1" "expo x + 1 + 1"] by simp
    then have "expo r \<le> expo x + 1" using expo_ge [of x] by (intro expo_le_iff) simp_all
    then have "expo r - 52 \<le> expo x + 1" by simp
    with g show ?thesis using fr by (rule round64_exact)
  next
    case False
    with le have "\<bar>r\<bar> < 2 powi (expo x + 1)" by simp
    then have "expo r \<le> expo x" using expo_ge [of x] by (intro expo_le_iff) simp_all
    then have "expo r - 52 \<le> expo x - 52" by simp
    moreover have "r = of_int (round_even (x / ulp x)) * 2 powi (expo x - 52)"
      by (simp add: r near_def ulp_def)
    ultimately show ?thesis using fr by (intro round64_exact [where m = "round_even (x / ulp x)" and g = "expo x - 52"])
  qed
qed

lemma is_double_round64: "round64 x = Fin r \<Longrightarrow> is_double r"
  by (simp add: is_double_def round64_idem)

lemma is_double_0 [simp]: "is_double 0"
  by (simp add: is_double_def)

lemma is_double_grid:
  assumes "is_double r"
  shows "\<exists>m. r = of_int m * 2 powi (expo r - 52)"
proof -
  from assms have "r = near r" by (simp add: is_double_def round64_Fin_iff)
  then have "r = of_int (round_even (r / ulp r)) * 2 powi (expo r - 52)"
    by (simp add: near_def ulp_def)
  then show ?thesis ..
qed

lemma is_double_tiny_grid:
  assumes "is_double r"
  shows "\<exists>m. r = of_int m * 2 powi (- 1074)"
proof -
  from is_double_grid [OF assms] obtain m where m: "r = of_int m * 2 powi (expo r - 52)" ..
  define k where "k = nat (expo r + 1022)"
  have e: "expo r - 52 = - 1074 + int k" using expo_ge [of r] by (simp add: k_def)
  have "(2::real) powi (- 1074 + int k) = 2 powi (- 1074) * 2 powi (int k)"
    by (rule power_int_add) simp
  then have "(2::real) powi (expo r - 52) = 2 powi (- 1074) * 2 powi (int k)"
    unfolding e .
  then have "(2::real) powi (expo r - 52) = 2 powi (- 1074) * 2 ^ k"
    by (simp only: power_int_of_nat)
  with m have "r = of_int (m * 2 ^ k) * 2 powi (- 1074)"
    by (simp only: of_int_mult of_int_power of_int_numeral mult.assoc mult.commute [of "2 ^ k"])
  then show ?thesis ..
qed

lemma double_gap:
  assumes "is_double a" and "is_double b" and "a < b"
  shows "2 powi (- 1074) \<le> b - a"
proof -
  from is_double_tiny_grid [OF assms(1)] obtain m where a: "a = of_int m * 2 powi (- 1074)" ..
  from is_double_tiny_grid [OF assms(2)] obtain n where b: "b = of_int n * 2 powi (- 1074)" ..
  from assms(3) have "real_of_int m * 2 powi (- 1074) < of_int n * 2 powi (- 1074)" by (simp add: a b)
  then have "real_of_int m < of_int n" by (simp add: mult_less_cancel_right)
  then have "m + 1 \<le> n" by simp
  then have "real_of_int (m + 1) \<le> of_int n" by (simp only: of_int_le_iff)
  then have "real_of_int (m + 1) * 2 powi (- 1074) \<le> of_int n * 2 powi (- 1074)"
    by (rule mult_right_mono) simp
  then show ?thesis by (simp add: a b algebra_simps)
qed

lemma near_pos:
  assumes "2 powi (- 1074) \<le> x"
  shows "0 < near x"
proof -
  have xp: "0 < x" using assms by (rule less_le_trans [rotated]) simp
  have "1 \<le> x / ulp x"
  proof (cases "expo x = - 1022")
    case True
    then have "ulp x = 2 powi (- 1074)" by (simp add: ulp_def)
    with assms show ?thesis by simp
  next
    case False
    with expo_lower [of x] xp have "2 powi (expo x) \<le> x" by simp
    then have "2 powi (expo x) / ulp x \<le> x / ulp x" by (simp add: divide_right_mono)
    moreover have "2 powi (expo x) / ulp x = (2::real) ^ 52"
      by (simp add: ulp_def flip: power_int_diff)
    ultimately have "(2::real) ^ 52 \<le> x / ulp x" by (simp only:)
    moreover have "(1::real) \<le> 2 ^ 52" by simp
    ultimately show ?thesis by (rule order_trans [rotated])
  qed
  then have "round_even (of_int 1) \<le> round_even (x / ulp x)" by (intro round_even_mono) simp
  then have "1 \<le> round_even (x / ulp x)" by (simp only: round_even_int)
  then show ?thesis by (simp add: near_def)
qed

lemma round64_finite_err:
  assumes "\<bar>x\<bar> < 2 powi 1023"
  shows "\<exists>r. round64 x = Fin r \<and> \<bar>r - x\<bar> \<le> ulp x / 2"
proof -
  have "expo x \<le> 1022" using assms by (intro expo_le_iff) simp_all
  then have "ulp x \<le> 2 powi 970" unfolding ulp_def by (intro pow2_mono) simp
  with near_err [of x] have "\<bar>near x - x\<bar> \<le> 2 powi 970 / 2" by simp
  with assms have "\<bar>near x\<bar> < 2 powi 1023 + 2 powi 970 / 2" by linarith
  moreover have "2 powi 1023 + 2 powi 970 / 2 \<le> (2::real) ^ 1024" by simp
  ultimately have "\<bar>near x\<bar> < 2 ^ 1024" by linarith
  then have "round64 x = Fin (near x)" by (simp add: round64_Fin_iff)
  with near_err [of x] show ?thesis by blast
qed

lemma round64_numeral:
  "numeral k \<le> (2::int) ^ 53 \<Longrightarrow> round64 (numeral k) = Fin (numeral k)"
  using round64_int [of "numeral k"] by simp

lemma round64_eval:
  assumes "- 1022 \<le> e" and "e \<le> 1023" and "2 powi e \<le> \<bar>x\<bar>" and "\<bar>x\<bar> < 2 powi (e + 1)"
    and "round_even (x / 2 powi (e - 52)) = n"
    and "\<bar>real_of_int n * 2 powi (e - 52)\<bar> < 2 ^ 1024"
  shows "round64 x = Fin (of_int n * 2 powi (e - 52))"
proof -
  have e: "expo x = e" using assms(1-4) by (intro expo_eqI) simp_all
  then have n: "near x = of_int n * 2 powi (e - 52)" using assms(5) by (simp add: near_def ulp_def)
  with assms(6) show ?thesis unfolding round64_Fin_iff by simp
qed

lemma third: "round64 (1 / 3) = Fin (6004799503160661 / 18014398509481984)"
  using round64_eval [of "- 2" "1 / 3" 6004799503160661]
  by (simp add: round_even_def)

lemma third_100: "round64 (6004799503160661 / 18014398509481984 * 100) = Fin (2345624805922133 / 70368744177664)"
  using round64_eval [of 5 "6004799503160661 / 18014398509481984 * 100" 4691249611844266]
  by (simp add: round_even_def)

lemma clip_mono: "r \<le> r' \<Longrightarrow> js_ge (clip r') (clip r)"
  by (auto simp: clip_def js_ge_def)

lemma round64_mono_nonneg: "0 \<le> x \<Longrightarrow> x \<le> y \<Longrightarrow> js_ge (round64 y) (round64 x)"
  by (simp add: round64_def clip_mono near_mono_nonneg)



lemma round64_sign:
  assumes "is_double a" and "is_double b"
  shows "js_lt (Fin 0) (round64 (b - a)) = (a < b)"
proof (cases "a < b")
  case True
  then have "2 powi (- 1074) \<le> b - a" using assms by (intro double_gap)
  then have "0 < near (b - a)" by (rule near_pos)
  with True show ?thesis by (simp add: round64_def clip_def)
next
  case False
  then have "b - a \<le> 0" by simp
  then have "near (b - a) \<le> 0" by (rule near_nonpos)
  with False show ?thesis by (simp add: round64_def clip_def)
qed

section \<open>CPU usage\<close>

lemma js_ge_trans: "js_ge x y \<Longrightarrow> js_ge y z \<Longrightarrow> js_ge x z"
  by (cases x; cases y; cases z) (simp_all add: js_ge_def)

lemma js_ge_refl: "x \<noteq> NaN \<Longrightarrow> js_ge x x"
  by (cases x) (simp_all add: js_ge_def)

lemma js_lt_PInf [simp]: "\<not> js_lt PInf y"
  by (cases y) simp_all


lemma is_nonneg_Fin: "is_nonneg x \<Longrightarrow> x = Fin (num_val x) \<and> 0 \<le> num_val x"
  by (cases x) simp_all












lemma is_whole_Fin: "is_whole x \<Longrightarrow> \<exists>n. 0 \<le> n \<and> x = Fin (of_int n)"
proof (cases x)
  case (Fin a)
  assume "is_whole x"
  with Fin have "0 \<le> a" and "a = of_int \<lfloor>a\<rfloor>" by simp_all
  then have "0 \<le> \<lfloor>a\<rfloor> \<and> x = Fin (of_int \<lfloor>a\<rfloor>)" using Fin by simp
  then show ?thesis ..
qed simp_all

lemma whole_add:
  assumes "0 \<le> m" and "0 \<le> n" and "m + n \<le> 2 ^ 53"
  shows "js_add (Fin (of_int m)) (Fin (of_int n)) = Fin (of_int (m + n))"
proof -
  from assms have "\<bar>m + n\<bar> \<le> 2 ^ 53" by simp
  then have "round64 (of_int (m + n)) = Fin (of_int (m + n))" by (rule round64_int)
  then show ?thesis by simp
qed

lemma whole_step:
  assumes "whole_ticks c" and "0 \<le> m" and "real_of_int m + core_total c \<le> 2 ^ 53"
  shows "\<exists>k. 0 \<le> k \<and> real_of_int k = of_int m + core_total c
       \<and> js_add (js_add (js_add (js_add (js_add (Fin (of_int m)) (user (times_c c))) (nice (times_c c)))
            (sys (times_c c))) (idle (times_c c))) (irq (times_c c)) = Fin (of_int k)"
proof -
  from assms(1) obtain u n s i q where
    u: "0 \<le> u" "user (times_c c) = Fin (of_int u)" and n: "0 \<le> n" "nice (times_c c) = Fin (of_int n)"
    and s: "0 \<le> s" "sys (times_c c) = Fin (of_int s)" and i: "0 \<le> i" "idle (times_c c) = Fin (of_int i)"
    and q: "0 \<le> q" "irq (times_c c) = Fin (of_int q)"
    unfolding whole_ticks_def using is_whole_Fin by metis
  have ct: "core_total c = of_int (u + n + s + i + q)"
    by (simp add: core_total_def u n s i q)
  have "real_of_int (m + (u + n + s + i + q)) \<le> of_int (2 ^ 53)"
    using assms(3) ct by simp
  then have b: "m + (u + n + s + i + q) \<le> 2 ^ 53" by (simp only: of_int_le_iff)
  have 1: "js_add (Fin (of_int m)) (Fin (of_int u)) = Fin (of_int (m + u))"
    by (rule whole_add) (use assms(2) u n s i q b in linarith)+
  have 2: "js_add (Fin (of_int (m + u))) (Fin (of_int n)) = Fin (of_int (m + u + n))"
    by (rule whole_add) (use assms(2) u n s i q b in linarith)+
  have 3: "js_add (Fin (of_int (m + u + n))) (Fin (of_int s)) = Fin (of_int (m + u + n + s))"
    by (rule whole_add) (use assms(2) u n s i q b in linarith)+
  have 4: "js_add (Fin (of_int (m + u + n + s))) (Fin (of_int i)) = Fin (of_int (m + u + n + s + i))"
    by (rule whole_add) (use assms(2) u n s i q b in linarith)+
  have 5: "js_add (Fin (of_int (m + u + n + s + i))) (Fin (of_int q)) = Fin (of_int (m + u + n + s + i + q))"
    by (rule whole_add) (use assms(2) u n s i q b in linarith)+
  have k: "0 \<le> m + u + n + s + i + q" using assms(2) u n s i q by simp
  have e: "real_of_int (m + u + n + s + i + q) = of_int m + core_total c" by (simp add: ct)
  have "js_add (js_add (js_add (js_add (js_add (Fin (of_int m)) (user (times_c c))) (nice (times_c c)))
            (sys (times_c c))) (idle (times_c c))) (irq (times_c c)) = Fin (of_int (m + u + n + s + i + q))"
    by (simp only: u n s i q 1 2 3 4 5)
  with k e show ?thesis by blast
qed

lemma whole_nonneg: "whole_ticks c \<Longrightarrow> nonneg_ticks c"
proof -
  have "is_whole x \<Longrightarrow> is_nonneg x" for x by (cases x) simp_all
  then show "whole_ticks c \<Longrightarrow> nonneg_ticks c" by (simp add: whole_ticks_def nonneg_ticks_def)
qed

lemma core_total_nonneg: "nonneg_ticks c \<Longrightarrow> 0 \<le> num_val (idle (times_c c)) \<and> num_val (idle (times_c c)) \<le> core_total c"
proof -
  assume "nonneg_ticks c"
  then have nn: "is_nonneg (user (times_c c))" "is_nonneg (nice (times_c c))"
    "is_nonneg (sys (times_c c))" "is_nonneg (idle (times_c c))" "is_nonneg (irq (times_c c))"
    by (simp_all add: nonneg_ticks_def)
  note f = nn [THEN is_nonneg_Fin]
  from f show ?thesis unfolding core_total_def by linarith
qed

lemma sums_nonneg:
  "\<forall>c\<in>set cpus. nonneg_ticks c \<Longrightarrow> 0 \<le> sum_idle cpus \<and> sum_idle cpus \<le> sum_ticks cpus"
proof (induction cpus)
  case Nil
  then show ?case by (simp add: sum_idle_def sum_ticks_def)
next
  case (Cons c cpus)
  then have "0 \<le> sum_idle cpus \<and> sum_idle cpus \<le> sum_ticks cpus" by simp
  moreover have "0 \<le> num_val (idle (times_c c)) \<and> num_val (idle (times_c c)) \<le> core_total c"
    using Cons.prems core_total_nonneg by simp
  ultimately show ?case by (simp add: sum_idle_def sum_ticks_def)
qed

lemma fold_whole_tick:
  assumes "\<forall>c\<in>set cpus. whole_ticks c" and "0 \<le> m" and "real_of_int m + sum_ticks cpus \<le> 2 ^ 53"
  shows "foldl (\<lambda>acc cpu.
        js_add (js_add (js_add (js_add (js_add acc (user (times_c cpu))) (nice (times_c cpu)))
          (sys (times_c cpu))) (idle (times_c cpu))) (irq (times_c cpu))) (Fin (of_int m)) cpus
       = Fin (of_int m + sum_ticks cpus)"
  using assms
proof (induction cpus arbitrary: m)
  case Nil
  then show ?case by (simp add: sum_ticks_def)
next
  case (Cons c cpus)
  from Cons.prems have w: "whole_ticks c" and rest: "\<forall>c\<in>set cpus. whole_ticks c" by simp_all
  have st: "sum_ticks (c # cpus) = core_total c + sum_ticks cpus" by (simp add: sum_ticks_def)
  have "0 \<le> sum_ticks cpus" using rest whole_nonneg sums_nonneg [of cpus] by force
  with Cons.prems(3) st have "real_of_int m + core_total c \<le> 2 ^ 53" by linarith
  from whole_step [OF w Cons.prems(2) this] obtain k where k: "0 \<le> k"
    "real_of_int k = of_int m + core_total c"
    "js_add (js_add (js_add (js_add (js_add (Fin (of_int m)) (user (times_c c))) (nice (times_c c)))
            (sys (times_c c))) (idle (times_c c))) (irq (times_c c)) = Fin (of_int k)" by blast
  have "real_of_int k + sum_ticks cpus \<le> 2 ^ 53" using Cons.prems(3) st k(2) by linarith
  from Cons.IH [OF rest k(1) this] k(2,3) st show ?case by (simp add: add.assoc)
qed

lemma fold_whole_idle:
  assumes "\<forall>c\<in>set cpus. whole_ticks c" and "0 \<le> m" and "real_of_int m + sum_idle cpus \<le> 2 ^ 53"
  shows "foldl (\<lambda>acc cpu. js_add acc (idle (times_c cpu))) (Fin (of_int m)) cpus
       = Fin (of_int m + sum_idle cpus)"
  using assms
proof (induction cpus arbitrary: m)
  case Nil
  then show ?case by (simp add: sum_idle_def)
next
  case (Cons c cpus)
  from Cons.prems have w: "whole_ticks c" and rest: "\<forall>c\<in>set cpus. whole_ticks c" by simp_all
  from w obtain i where i: "0 \<le> i" "idle (times_c c) = Fin (of_int i)"
    unfolding whole_ticks_def using is_whole_Fin by metis
  have st: "sum_idle (c # cpus) = of_int i + sum_idle cpus" by (simp add: sum_idle_def i)
  have "0 \<le> sum_idle cpus" using rest whole_nonneg sums_nonneg [of cpus] by force
  with Cons.prems(3) st have "real_of_int (m + i) \<le> of_int (2 ^ 53)" by simp
  then have "m + i \<le> 2 ^ 53" by (simp only: of_int_le_iff)
  with Cons.prems(2) i(1) have a: "js_add (Fin (of_int m)) (Fin (of_int i)) = Fin (of_int (m + i))"
    by (intro whole_add)
  have "real_of_int (m + i) + sum_idle cpus \<le> 2 ^ 53" using Cons.prems(3) st by simp
  moreover have "0 \<le> m + i" using Cons.prems(2) i(1) by simp
  ultimately have "foldl (\<lambda>acc cpu. js_add acc (idle (times_c cpu))) (Fin (of_int (m + i))) cpus
       = Fin (of_int (m + i) + sum_idle cpus)" using Cons.IH [OF rest] by blast
  with a i(2) st show ?case by (simp add: add.assoc)
qed

lemma whole_totals:
  assumes "\<forall>c\<in>set cpus. whole_ticks c" and "sum_ticks cpus \<le> 2 ^ 53"
  shows "totalTick cpus = Fin (sum_ticks cpus) \<and> totalIdle cpus = Fin (sum_idle cpus)"
proof -
  have nn: "\<forall>c\<in>set cpus. nonneg_ticks c" using assms(1) whole_nonneg by blast
  from sums_nonneg [OF nn] assms(2) have "sum_idle cpus \<le> 2 ^ 53" by linarith
  with fold_whole_idle [OF assms(1), of 0] fold_whole_tick [OF assms(1), of 0] assms(2)
  show ?thesis by (simp add: totalTick_def totalIdle_def)
qed


lemma round64_overflow:
  assumes "2 ^ 1024 \<le> x"
  shows "round64 x = PInf"
proof -
  have b: "\<bar>(2::real) ^ 1024\<bar> < 2 powi (1024 + 1)" by simp
  have "(2::real) ^ 1024 = of_int 1 * 2 powi 1024" by simp
  moreover have "expo ((2::real) ^ 1024) - 52 \<le> 1024" using expo_le [of "(2::real) ^ 1024"] by simp
  ultimately have "near ((2::real) ^ 1024) = 2 ^ 1024" by (rule near_exact)
  moreover have "near (2 ^ 1024) \<le> near x" using assms by (intro near_mono_nonneg) simp_all
  ultimately show ?thesis by (simp add: round64_def clip_def)
qed




lemma round64_2p1023: "round64 (2 ^ 1023) = Fin (2 ^ 1023)"
proof -
  have "(2::real) ^ 1023 = of_int 1 * 2 powi 1023" by simp
  moreover have "\<bar>(2::real) ^ 1023\<bar> < 2 powi (1023 + 1)" by simp
  then have "expo ((2::real) ^ 1023) \<le> 1023" by (intro expo_le_iff) simp_all
  then have "expo ((2::real) ^ 1023) - 52 \<le> 1023" by simp
  moreover have "\<bar>(2::real) ^ 1023\<bar> < 2 ^ 1024" by simp
  ultimately show ?thesis by (rule round64_exact)
qed

lemma usage_overflow:
  "usage (get_cpu_usage [\<lparr>model = ''cpu0'', speed = Fin 2400,
        times_c = \<lparr>user = Fin (2 ^ 1023), nice = Fin (2 ^ 1023), sys = Fin 0, idle = Fin 0,
          irq = Fin 0\<rparr>\<rparr>] []) = NaN"
proof -
  have a: "js_add (Fin 0) (Fin (2 ^ 1023)) = Fin (2 ^ 1023)"
    by (simp only: js_add.simps add_0 round64_2p1023)
  have b: "round64 (2 ^ 1023 + 2 ^ 1023) = PInf"
    by (rule round64_overflow) simp
  show ?thesis by (simp only: get_cpu_usage_def totalTick_def totalIdle_def foldl.simps
      cpu_times.simps cpu_info.simps cpu_usage.simps a b js_add.simps js_sub_def js_neg.simps
      js_div.simps js_mul.simps round64_0 round64_2p1023 add_0 minus_zero)
qed

lemma usage_third:
  "usage (get_cpu_usage
     [\<lparr>model = ''cpu0'', speed = Fin 2400,
        times_c = \<lparr>user = Fin 1, nice = Fin 0, sys = Fin 0, idle = Fin 2, irq = Fin 0\<rparr>\<rparr>,
      \<lparr>model = ''cpu1'', speed = Fin 2400,
        times_c = \<lparr>user = Fin 0, nice = Fin 0, sys = Fin 0, idle = Fin 0, irq = Fin 0\<rparr>\<rparr>] [])
   = Fin (2345624805922133 / 70368744177664)"
proof -
  have "round64 (150119987579016525 / 4503599627370496) = Fin (2345624805922133 / 70368744177664)"
    using third_100 by simp
  then show ?thesis
    by (simp add: get_cpu_usage_def totalTick_def totalIdle_def js_sub_def round64_numeral third)
qed

text \<open>
  Claim C2, as stated, fails. With two counters of \<open>2^1023\<close> on one core the total of
  ticks overflows to \<open>Infinity\<close> and the usage is \<open>NaN\<close>, not a number between 0 and
  100; and for one core with user 1 and idle 2, beside a core of zeros, the usage is the
  double \<open>33.33333333333333\<close>, not the real number \<open>(3 - 2) / 3 * 100\<close>.
\<close>

theorem cpu_usage_percent_fails:
  "nonneg_ticks \<lparr>model = ''cpu0'', speed = Fin 2400,
        times_c = \<lparr>user = Fin (2 ^ 1023), nice = Fin (2 ^ 1023), sys = Fin 0, idle = Fin 0,
          irq = Fin 0\<rparr>\<rparr>
   \<and> 0 < sum_ticks [\<lparr>model = ''cpu0'', speed = Fin 2400,
        times_c = \<lparr>user = Fin (2 ^ 1023), nice = Fin (2 ^ 1023), sys = Fin 0, idle = Fin 0,
          irq = Fin 0\<rparr>\<rparr>]
   \<and> usage (get_cpu_usage [\<lparr>model = ''cpu0'', speed = Fin 2400,
        times_c = \<lparr>user = Fin (2 ^ 1023), nice = Fin (2 ^ 1023), sys = Fin 0, idle = Fin 0,
          irq = Fin 0\<rparr>\<rparr>] []) = NaN
   \<and> usage (get_cpu_usage
        [\<lparr>model = ''cpu0'', speed = Fin 2400,
           times_c = \<lparr>user = Fin 1, nice = Fin 0, sys = Fin 0, idle = Fin 2, irq = Fin 0\<rparr>\<rparr>,
         \<lparr>model = ''cpu1'', speed = Fin 2400,
           times_c = \<lparr>user = Fin 0, nice = Fin 0, sys = Fin 0, idle = Fin 0, irq = Fin 0\<rparr>\<rparr>] [])
       = Fin (2345624805922133 / 70368744177664)
   \<and> Fin (2345624805922133 / 70368744177664) \<noteq> Fin ((3 - 2) / 3 * 100)"
proof -
  have "nonneg_ticks \<lparr>model = ''cpu0'', speed = Fin 2400,
        times_c = \<lparr>user = Fin (2 ^ 1023), nice = Fin (2 ^ 1023), sys = Fin 0, idle = Fin 0,
          irq = Fin 0\<rparr>\<rparr>"
    by (simp add: nonneg_ticks_def)
  moreover have "0 < sum_ticks [\<lparr>model = ''cpu0'', speed = Fin 2400,
        times_c = \<lparr>user = Fin (2 ^ 1023), nice = Fin (2 ^ 1023), sys = Fin 0, idle = Fin 0,
          irq = Fin 0\<rparr>\<rparr>]"
    by (simp add: sum_ticks_def core_total_def)
  moreover have "Fin (2345624805922133 / 70368744177664) \<noteq> Fin ((3 - 2) / 3 * 100)" by simp
  ultimately show ?thesis using usage_overflow usage_third by blast
qed


lemma zero_ticks_whole: "zero_ticks c \<Longrightarrow> whole_ticks c \<and> core_total c = 0"
  by (simp add: zero_ticks_def whole_ticks_def core_total_def)

lemma zero_sum: "\<forall>c\<in>set cpus. zero_ticks c \<Longrightarrow> sum_ticks cpus = 0 \<and> sum_idle cpus = 0"
  by (induction cpus) (simp_all add: sum_ticks_def sum_idle_def zero_ticks_whole zero_ticks_def)

text \<open>
  Claim C10. \<open>get-cpu-usage\<close> divides by \<open>totalTick\<close> without a guard: for the empty
  snapshot, and for every snapshot whose counters are all zero, \<open>totalTick\<close> is 0 and
  the returned usage is \<open>NaN\<close>, neither 0 nor an error.
\<close>

theorem cpu_usage_zero_ticks_NaN:
  "totalTick [] = Fin 0 \<and> usage (get_cpu_usage [] loadavg) = NaN
   \<and> ((\<forall>c\<in>set cpus. zero_ticks c) \<longrightarrow> totalTick cpus = Fin 0 \<and> usage (get_cpu_usage cpus loadavg) = NaN)"
proof -
  have "totalTick [] = Fin 0 \<and> usage (get_cpu_usage [] loadavg) = NaN"
    by (simp add: get_cpu_usage_def totalTick_def totalIdle_def js_sub_def)
  moreover have "totalTick cpus = Fin 0 \<and> usage (get_cpu_usage cpus loadavg) = NaN"
    if a: "\<forall>c\<in>set cpus. zero_ticks c"
  proof -
    from a have w: "\<forall>c\<in>set cpus. whole_ticks c" using zero_ticks_whole by blast
    from a have s: "sum_ticks cpus = 0 \<and> sum_idle cpus = 0" by (rule zero_sum)
    with whole_totals [OF w] have "totalTick cpus = Fin 0" "totalIdle cpus = Fin 0" by simp_all
    then show ?thesis by (simp add: get_cpu_usage_def js_sub_def)
  qed
  ultimately show ?thesis by blast
qed

theorem cpu_usage_zero_ticks_NaN_witness:
  "zero_ticks \<lparr>model = ''cpu0'', speed = Fin 2400,
        times_c = \<lparr>user = Fin 0, nice = Fin 0, sys = Fin 0, idle = Fin 0, irq = Fin 0\<rparr>\<rparr>
   \<and> usage (get_cpu_usage [\<lparr>model = ''cpu0'', speed = Fin 2400,
        times_c = \<lparr>user = Fin 0, nice = Fin 0, sys = Fin 0, idle = Fin 0, irq = Fin 0\<rparr>\<rparr>] []) = NaN"
proof -
  let ?z = "\<lparr>model = ''cpu0'', speed = Fin 2400,
        times_c = \<lparr>user = Fin 0, nice = Fin 0, sys = Fin 0, idle = Fin 0, irq = Fin 0\<rparr>\<rparr>"
  have h: "\<forall>c\<in>set [?z]. zero_ticks c" by (simp add: zero_ticks_def)
  with cpu_usage_zero_ticks_NaN [of "[]" "[?z]"] show ?thesis by simp
qed

section \<open>The process rules\<close>

lemma prefix_filter_take: "prefix (filter P (take n xs)) (filter P xs)"
proof -
  have "filter P xs = filter P (take n xs) @ filter P (drop n xs)"
    by (metis append_take_drop_id filter_append)
  then show ?thesis by (simp add: prefixI)
qed

lemma subseq_take: "subseq (take n xs) xs"
  by (metis append_take_drop_id list_emb_append_mono subseq_order.order_refl list_emb_Nil append_Nil2)

lemma subseq_lines: "subseq (filter Q (map f (filter P xs))) (map f xs)"
  by (meson subseq_filter_left subseq_map subseq_order.trans)

lemma or_num_not_NaN: "or_num x (Fin 0) \<noteq> NaN"
  by (cases x) (simp_all add: or_num_def)

lemma js_lt_irrefl: "\<not> js_lt x x"
  by (cases x) simp_all

lemma js_lt_asym: "js_lt x y \<Longrightarrow> \<not> js_lt y x"
  by (cases x; cases y) simp_all

lemma ordered_value_not_NaN: "ordered_value x \<Longrightarrow> x \<noteq> NaN"
  by (cases x) simp_all

lemma round64_ordered: "ordered_value (round64 x)"
  by (cases "round64 x") (simp_all add: is_double_round64)

lemma parseFloat_ordered: "parseFloat s = NaN \<or> ordered_value (parseFloat s)"
  by (simp add: parseFloat_def Let_def round64_ordered)

lemma or_num_ordered: "x = NaN \<or> ordered_value x \<Longrightarrow> ordered_value (or_num x (Fin 0))"
  by (cases x) (auto simp: or_num_def)

lemma cpu_ordered: "ordered_value (cpu (posix_process_of_line line))"
  by (simp add: posix_process_of_line_def Let_def or_num_ordered parseFloat_ordered)

lemma by_cpu_desc_after:
  assumes "ordered_value (cpu x)" and "ordered_value (cpu y)"
  shows "js_gt (SortCompare by_cpu_desc x y) (Fin 0) = js_lt (cpu x) (cpu y)"
proof (cases "cpu x")
  case a: (Fin a)
  show ?thesis
  proof (cases "cpu y")
    case b: (Fin b)
    from assms a b have d: "is_double a" "is_double b" by simp_all
    have e: "by_cpu_desc x y = round64 (b - a)" by (simp add: by_cpu_desc_def js_sub_def a b)
    have "SortCompare by_cpu_desc x y = round64 (b - a)"
      by (cases "round64 (b - a)") (simp_all add: SortCompare_def e)
    then show ?thesis using round64_sign [OF d] by (simp add: js_gt_def a b)
  qed (use assms a in \<open>simp_all add: SortCompare_def by_cpu_desc_def js_sub_def js_gt_def\<close>)
qed (use assms in \<open>cases "cpu y"; simp add: SortCompare_def by_cpu_desc_def js_sub_def js_gt_def\<close>)+

lemma set_sort_insert: "set (sort_insert f x ys) = insert x (set ys)"
  by (induction ys) auto

lemma set_Array_sort: "set (Array_sort f xs) = set xs"
  by (induction xs) (simp_all add: Array_sort_def set_sort_insert)

lemma length_sort_insert: "length (sort_insert f x ys) = Suc (length ys)"
  by (induction ys) auto

lemma length_Array_sort: "length (Array_sort f xs) = length xs"
  by (induction xs) (simp_all add: Array_sort_def length_sort_insert)

lemma sorted_sort_insert:
  assumes "sorted_wrt (\<lambda>a b. js_ge (cpu a) (cpu b)) ys"
    and "ordered_value (cpu x)" and "\<forall>y\<in>set ys. ordered_value (cpu y)"
  shows "sorted_wrt (\<lambda>a b. js_ge (cpu a) (cpu b)) (sort_insert by_cpu_desc x ys)"
  using assms
proof (induction ys)
  case Nil
  then show ?case by simp
next
  case (Cons y ys)
  show ?case
  proof (cases "js_lt (cpu x) (cpu y)")
    case True
    then have "js_ge (cpu y) (cpu x)"
      using Cons.prems js_lt_asym by (simp add: js_ge_def ordered_value_not_NaN)
    with True Cons show ?thesis
      by (simp add: by_cpu_desc_after set_sort_insert)
  next
    case False
    then have xy: "js_ge (cpu x) (cpu y)"
      using Cons.prems by (simp add: js_ge_def ordered_value_not_NaN)
    have "\<forall>z\<in>set ys. js_ge (cpu x) (cpu z)"
      using xy Cons.prems(1) js_ge_trans by auto
    with False xy Cons.prems show ?thesis
      by (simp add: by_cpu_desc_after)
  qed
qed

lemma sorted_Array_sort:
  assumes "\<forall>x\<in>set xs. ordered_value (cpu x)"
  shows "sorted_wrt (\<lambda>a b. js_ge (cpu a) (cpu b)) (Array_sort by_cpu_desc xs)"
  using assms
proof (induction xs)
  case Nil
  then show ?case by (simp add: Array_sort_def)
next
  case (Cons x xs)
  then have "sorted_wrt (\<lambda>a b. js_ge (cpu a) (cpu b)) (Array_sort by_cpu_desc xs)" by simp
  moreover have "\<forall>y\<in>set (Array_sort by_cpu_desc xs). ordered_value (cpu y)"
    using Cons.prems by (simp add: set_Array_sort)
  ultimately have "sorted_wrt (\<lambda>a b. js_ge (cpu a) (cpu b))
      (sort_insert by_cpu_desc x (Array_sort by_cpu_desc xs))"
    using Cons.prems by (simp add: sorted_sort_insert)
  then show ?case by (simp add: Array_sort_def)
qed

lemma filter_sort_insert_other:
  "\<not> P x \<Longrightarrow> filter P (sort_insert f x ys) = filter P ys"
  by (induction ys) auto

lemma filter_sort_insert_same:
  assumes "cpu x = v" and "ordered_value v" and "\<forall>y\<in>set ys. ordered_value (cpu y)"
  shows "filter (\<lambda>p. cpu p = v) (sort_insert by_cpu_desc x ys) = x # filter (\<lambda>p. cpu p = v) ys"
  using assms
proof (induction ys)
  case Nil
  then show ?case by simp
next
  case (Cons y ys)
  show ?case
  proof (cases "js_lt (cpu x) (cpu y)")
    case True
    then have "cpu y \<noteq> v" using Cons.prems(1) js_lt_irrefl by auto
    with True Cons show ?thesis by (simp add: by_cpu_desc_after)
  next
    case False
    with Cons.prems show ?thesis by (simp add: by_cpu_desc_after)
  qed
qed

lemma Array_sort_stable:
  assumes "\<forall>x\<in>set xs. ordered_value (cpu x)"
  shows "filter (\<lambda>p. cpu p = v) (Array_sort by_cpu_desc xs) = filter (\<lambda>p. cpu p = v) xs"
  using assms
proof (induction xs)
  case Nil
  then show ?case by (simp add: Array_sort_def)
next
  case (Cons x xs)
  then have ih: "filter (\<lambda>p. cpu p = v) (Array_sort by_cpu_desc xs) = filter (\<lambda>p. cpu p = v) xs"
    by simp
  have nn: "\<forall>y\<in>set (Array_sort by_cpu_desc xs). ordered_value (cpu y)"
    using Cons.prems by (simp add: set_Array_sort)
  show ?case
  proof (cases "cpu x = v")
    case True
    then have "ordered_value v" using Cons.prems by auto
    with True nn ih show ?thesis
      by (simp add: Array_sort_def filter_sort_insert_same)
  next
    case False
    with ih show ?thesis by (simp add: Array_sort_def filter_sort_insert_other)
  qed
qed

lemma unsorted_no_NaN: "\<forall>p\<in>set (posix_processes_unsorted output). ordered_value (cpu p)"
  by (auto simp: posix_processes_unsorted_def cpu_ordered)

text \<open>
  Claim C3. For every input text the records returned by the POSIX process rule are
  non-increasing in \<open>cpu\<close>, and the sort is stable: for each value of \<open>cpu\<close>, the returned
  records with that value are an initial part of the records with that value taken in
  the order of their source lines.
\<close>

theorem posix_sorted_stable:
  "sorted_wrt (\<lambda>a b. js_ge (cpu a) (cpu b)) (parseFunction_posix_processes output)
   \<and> (\<forall>v. prefix (filter (\<lambda>p. cpu p = v) (parseFunction_posix_processes output))
             (filter (\<lambda>p. cpu p = v) (posix_processes_unsorted output)))
   \<and> subseq (posix_processes_unsorted output)
        (map posix_process_of_line (split output ''\<newline>''))"
proof -
  have s: "sorted_wrt (\<lambda>a b. js_ge (cpu a) (cpu b)) (parseFunction_posix_processes output)"
    unfolding parseFunction_posix_processes_def
    using sorted_Array_sort [OF unsorted_no_NaN] by (rule sorted_wrt_take)
  have t: "prefix (filter (\<lambda>p. cpu p = v) (parseFunction_posix_processes output))
             (filter (\<lambda>p. cpu p = v) (posix_processes_unsorted output))" for v
    unfolding parseFunction_posix_processes_def
    using prefix_filter_take [of "\<lambda>p. cpu p = v" 50 "Array_sort by_cpu_desc (posix_processes_unsorted output)"]
    by (simp add: Array_sort_stable [OF unsorted_no_NaN])
  have l: "subseq (posix_processes_unsorted output)
        (map posix_process_of_line (split output ''\<newline>''))"
    unfolding posix_processes_unsorted_def nonblank_lines_def by (rule subseq_lines)
  from s t l show ?thesis by blast
qed

text \<open>
  Claim C8. For every input text the records returned by the Windows process rule keep
  the order of their source lines: they are a subsequence of the records of the lines of
  the input, taken in line order. No sort is applied.
\<close>

theorem win32_order_kept:
  "subseq (parseFunction_win32_processes output)
     (map win32_process_of_line (split output ''\<newline>''))"
proof -
  have "subseq (filter (\<lambda>process. js_gt (w_pid process) (Fin 0))
       (map win32_process_of_line (win32_process_lines output)))
     (map win32_process_of_line (split output ''\<newline>''))"
    unfolding win32_process_lines_def by (rule subseq_lines)
  then show ?thesis
    unfolding parseFunction_win32_processes_def
    using subseq_take subseq_order.trans by blast
qed

lemma win32_pids: "\<forall>p\<in>set (parseFunction_win32_processes output). js_gt (w_pid p) (Fin 0)"
  by (auto simp: parseFunction_win32_processes_def dest: in_set_takeD)

lemma posix_pids: "\<forall>p\<in>set (parseFunction_posix_processes output). js_gt (pid p) (Fin 0)"
proof
  fix p assume "p \<in> set (parseFunction_posix_processes output)"
  then have "p \<in> set (Array_sort by_cpu_desc (posix_processes_unsorted output))"
    unfolding parseFunction_posix_processes_def by (rule in_set_takeD)
  then have "p \<in> set (posix_processes_unsorted output)" by (simp add: set_Array_sort)
  then show "js_gt (pid p) (Fin 0)" by (simp add: posix_processes_unsorted_def)
qed

lemma chrome_line_parse:
  \<open>parseFunction_win32_processes ''"chrome.exe","1234","Console","1","50,000 K"'' =
     [\<lparr>w_name = ''chrome.exe'', w_pid = Fin 1234, w_memory = ''50,000 K'', w_cpu = ''N/A''\<rparr>]\<close>
  by (simp add: parseFunction_win32_processes_def win32_process_lines_def win32_process_of_line_def
      split_def trim_def isWhiteSpace_def strip_quotes_def elem_at_def or_str_def or_num_def
      ToString_opt_def parseInt_def is_digit_in_def digit_val_def digits_value_def js_gt_def
      round64_numeral)

text \<open>
  Claim C1, as amended. The Windows process rule maps the single line
  \<open>"chrome.exe","1234","Console","1","50,000 K"\<close> to exactly one record, with name
  \<open>chrome.exe\<close>, pid 1234, memory \<open>50,000 K\<close> and the cpu field equal to the string
  \<open>N/A\<close>.
\<close>

theorem win32_chrome_line:
  \<open>parseFunction_win32_processes ''"chrome.exe","1234","Console","1","50,000 K"'' =
     [\<lparr>w_name = ''chrome.exe'', w_pid = Fin 1234, w_memory = ''50,000 K'', w_cpu = ''N/A''\<rparr>]\<close>
  by (rule chrome_line_parse)

text \<open>
  Claim C1, as stated, fails: the cpu field of that record is not the string
  \<open>unavailable\<close>.
\<close>

theorem win32_chrome_line_not_unavailable:
  \<open>parseFunction_win32_processes ''"chrome.exe","1234","Console","1","50,000 K"'' \<noteq>
     [\<lparr>w_name = ''chrome.exe'', w_pid = Fin 1234, w_memory = ''50,000 K'', w_cpu = ''unavailable''\<rparr>]\<close>
  by (simp add: chrome_line_parse)

section \<open>The handlers\<close>

lemma get_processes_cases:
  "get_processes platform execAsync =
     (if platform = ''win32''
      then (case execAsync ''tasklist /FO CSV /NH'' of
              Inr stdout \<Rightarrow> Inr (map Win32Process (parseFunction_win32_processes stdout))
            | Inl error \<Rightarrow> Inr [])
      else (case execAsync ''ps aux --no-headers'' of
              Inr stdout \<Rightarrow> Inr (map PosixProcess (parseFunction_posix_processes stdout))
            | Inl error \<Rightarrow> Inr []))"
  by (simp add: get_processes_def)

lemma get_disk_usage_cases:
  "get_disk_usage platform execAsync =
     (if platform = ''win32''
      then (case execAsync ''wmic logicaldisk get size,freespace,caption'' of
              Inr stdout \<Rightarrow> Inr (map Win32Disk (parseFunction_win32_disk stdout))
            | Inl error \<Rightarrow> Inr [])
      else (case execAsync ''df -h'' of
              Inr stdout \<Rightarrow> Inr (map PosixDisk (parseFunction_posix_disk stdout))
            | Inl error \<Rightarrow> Inr []))"
  by (simp add: get_disk_usage_def)

text \<open>
  Claim C4. When the command of \<open>get-processes\<close> or of \<open>get-disk-usage\<close> fails, the
  handler answers with the empty array; and whatever \<open>execAsync\<close> does, neither handler
  lets an error escape.
\<close>

theorem exec_failure_gives_empty:
  "(execAsync (if platform = ''win32'' then ''tasklist /FO CSV /NH'' else ''ps aux --no-headers'') = Inl e
      \<longrightarrow> get_processes platform execAsync = Inr [])
   \<and> (execAsync (if platform = ''win32'' then ''wmic logicaldisk get size,freespace,caption'' else ''df -h'') = Inl e
      \<longrightarrow> get_disk_usage platform execAsync = Inr [])
   \<and> (\<exists>ps. get_processes platform execAsync = Inr ps)
   \<and> (\<exists>ds. get_disk_usage platform execAsync = Inr ds)"
  by (auto simp: get_processes_cases get_disk_usage_cases split: sum.splits)

theorem exec_failure_gives_empty_witness:
  "(\<lambda>command. Inl (Error ''spawn ENOENT'') :: js_error + string) ''ps aux --no-headers''
      = Inl (Error ''spawn ENOENT'')
   \<and> (\<lambda>command. Inl (Error ''spawn ENOENT'') :: js_error + string) ''df -h''
      = Inl (Error ''spawn ENOENT'')
   \<and> get_processes ''linux'' (\<lambda>command. Inl (Error ''spawn ENOENT'')) = Inr []
   \<and> get_disk_usage ''linux'' (\<lambda>command. Inl (Error ''spawn ENOENT'')) = Inr []"
  using exec_failure_gives_empty [of "\<lambda>command. Inl (Error ''spawn ENOENT'')" "''linux''" "Error ''spawn ENOENT''"]
  by simp

text \<open>
  Claim C6. On either platform, whatever the command printed, every record that
  \<open>get-processes\<close> returns has \<open>pid > 0\<close>: a record whose pid is zero, negative, or did not
  parse (and so became 0) is not returned.
\<close>

theorem processes_pid_positive:
  "\<exists>ps. get_processes platform execAsync = Inr ps \<and> (\<forall>p\<in>set ps. js_gt (entry_pid p) (Fin 0))"
  using win32_pids posix_pids
  by (auto simp: get_processes_cases split: sum.splits)

lemma two_lines_win32:
  \<open>parseFunction_win32_processes ''"System Idle Process","0","Services","0","8 K"\<newline>"chrome.exe","1234","Console","1","50,000 K"''
     = [\<lparr>w_name = ''chrome.exe'', w_pid = Fin 1234, w_memory = ''50,000 K'', w_cpu = ''N/A''\<rparr>]\<close>
  by (simp add: parseFunction_win32_processes_def win32_process_lines_def win32_process_of_line_def
      split_def trim_def isWhiteSpace_def strip_quotes_def elem_at_def or_str_def or_num_def
      ToString_opt_def parseInt_def is_digit_in_def digit_val_def digits_value_def js_gt_def
      round64_numeral)

theorem processes_pid_positive_witness:
  \<open>get_processes ''win32'' (\<lambda>command. Inr ''"System Idle Process","0","Services","0","8 K"\<newline>"chrome.exe","1234","Console","1","50,000 K"'')
     = Inr [Win32Process \<lparr>w_name = ''chrome.exe'', w_pid = Fin 1234, w_memory = ''50,000 K'', w_cpu = ''N/A''\<rparr>]
   \<and> js_gt (entry_pid (Win32Process \<lparr>w_name = ''chrome.exe'', w_pid = Fin 1234, w_memory = ''50,000 K'', w_cpu = ''N/A''\<rparr>))
         (Fin 0)\<close>
  using processes_pid_positive [of "''win32''" \<open>\<lambda>command. Inr ''"System Idle Process","0","Services","0","8 K"\<newline>"chrome.exe","1234","Console","1","50,000 K"''\<close>]
  by (simp add: get_processes_cases two_lines_win32)

text \<open>
  Claim C7. On either platform, whatever the command printed, \<open>get-processes\<close> returns
  at most 50 records.
\<close>

theorem processes_at_most_50:
  "\<exists>ps. get_processes platform execAsync = Inr ps \<and> length ps \<le> 50"
  by (auto simp: get_processes_cases parseFunction_win32_processes_def
      parseFunction_posix_processes_def split: sum.splits)

section \<open>The Windows disk rule\<close>



lemma win32_disk_fields:
  "w_filesystem (win32_disk_of_line line) = elem_at (split_ws (trim line)) 0
   \<and> w_mounted (win32_disk_of_line line) = elem_at (split_ws (trim line)) 0
   \<and> w_available (win32_disk_of_line line)
       = or_num (parseInt (ToString_opt (elem_at (split_ws (trim line)) 1))) (Fin 0)
   \<and> w_size (win32_disk_of_line line)
       = or_num (parseInt (ToString_opt (elem_at (split_ws (trim line)) 2))) (Fin 0)
   \<and> w_used (win32_disk_of_line line)
       = js_sub (w_size (win32_disk_of_line line)) (w_available (win32_disk_of_line line))
   \<and> w_usePercent (win32_disk_of_line line)
       = (if js_gt (w_size (win32_disk_of_line line)) (Fin 0)
          then js_mul (js_div (w_used (win32_disk_of_line line)) (w_size (win32_disk_of_line line))) (Fin 100)
          else Fin 0)"
  by (simp add: win32_disk_of_line_def Let_def)



lemma round64_2p53_plus_1: "round64 9007199254740993 = Fin 9007199254740992"
  using round64_eval [of 53 9007199254740993 4503599627370496]
  by (simp add: round_even_def)

lemma disk_2_3:
  "map (\<lambda>r. (w_filesystem r, w_size r, w_available r, w_used r, w_usePercent r))
     (parseFunction_win32_disk ''C: 2 3'')
   = [(Some ''C:'', Fin 3, Fin 2, Fin 1, Fin (2345624805922133 / 70368744177664))]"
proof -
  let ?r = "win32_disk_of_line ''C: 2 3''"
  have t: "round64 (150119987579016525 / 4503599627370496) = Fin (2345624805922133 / 70368744177664)"
    using third_100 by simp
  have l: "split ''C: 2 3'' ''\<newline>'' = [''C: 2 3'']" by (simp add: split_def)
  have tr: "trim ''C: 2 3'' \<noteq> []" by (simp add: trim_def isWhiteSpace_def)
  have p: "split_ws (trim ''C: 2 3'') = [''C:'', ''2'', ''3'']"
    by (simp add: split_ws_def trim_def isWhiteSpace_def)
  have i2: "parseInt ''2'' = Fin 2" and i3: "parseInt ''3'' = Fin 3"
    by (simp_all add: parseInt_def isWhiteSpace_def is_digit_in_def digit_val_def digits_value_def
        round64_numeral)
  have r: "parseFunction_win32_disk ''C: 2 3'' = [?r]"
    by (simp add: parseFunction_win32_disk_def l tr)
  note f = win32_disk_fields [of "''C: 2 3''", unfolded p]
  from f have c: "w_filesystem ?r = Some ''C:''" by (simp add: elem_at_def)
  from f have a: "w_available ?r = Fin 2" and z: "w_size ?r = Fin 3"
    by (simp_all add: elem_at_def ToString_opt_def i2 i3 or_num_def)
  from f have u: "w_used ?r = Fin 1" by (simp add: a z js_sub_def round64_numeral)
  from f have "w_usePercent ?r = Fin (2345624805922133 / 70368744177664)"
    by (simp add: a z u js_gt_def third t)
  with c a z u r show ?thesis by simp
qed

lemma disk_2p53:
  "map (\<lambda>r. (w_size r, w_available r, w_used r))
     (parseFunction_win32_disk ''C: 9007199254740993 9007199254740992'')
   = [(Fin 9007199254740992, Fin 9007199254740992, Fin 0)]"
proof -
  let ?r = "win32_disk_of_line ''C: 9007199254740993 9007199254740992''"
  have l: "split ''C: 9007199254740993 9007199254740992'' ''\<newline>''
      = [''C: 9007199254740993 9007199254740992'']" by (simp add: split_def)
  have tr: "trim ''C: 9007199254740993 9007199254740992'' \<noteq> []"
    by (simp add: trim_def isWhiteSpace_def)
  have p: "split_ws (trim ''C: 9007199254740993 9007199254740992'')
      = [''C:'', ''9007199254740993'', ''9007199254740992'']"
    by (simp add: split_ws_def trim_def isWhiteSpace_def)
  have i2: "parseInt ''9007199254740993'' = Fin 9007199254740992"
    by (simp add: parseInt_def isWhiteSpace_def is_digit_in_def digit_val_def digits_value_def
        round64_2p53_plus_1)
  have i3: "parseInt ''9007199254740992'' = Fin 9007199254740992"
    by (simp add: parseInt_def isWhiteSpace_def is_digit_in_def digit_val_def digits_value_def
        round64_numeral)
  have r: "parseFunction_win32_disk ''C: 9007199254740993 9007199254740992'' = [?r]"
    by (simp add: parseFunction_win32_disk_def l tr)
  note f = win32_disk_fields [of "''C: 9007199254740993 9007199254740992''", unfolded p]
  from f have a: "w_available ?r = Fin 9007199254740992" and z: "w_size ?r = Fin 9007199254740992"
    by (simp_all add: elem_at_def ToString_opt_def i2 i3 or_num_def)
  from f have u: "w_used ?r = Fin 0" by (simp add: a z js_sub_def)
  with a z r show ?thesis by simp
qed

text \<open>
  Claim C5, as stated, fails. For the line \<open>C: 2 3\<close> the field \<open>usePercent\<close> is the double
  \<open>33.33333333333333\<close>, not \<open>(3 - 2) / 3 * 100\<close>; and for the line
  \<open>C: 9007199254740993 9007199254740992\<close> the record has \<open>available = 2^53\<close> and
  \<open>used = 0\<close>, not the difference of the two fields of the line.
\<close>

theorem win32_disk_record_fails:
  "map (\<lambda>r. (w_filesystem r, w_size r, w_available r, w_used r, w_usePercent r))
     (parseFunction_win32_disk ''C: 2 3'')
   = [(Some ''C:'', Fin 3, Fin 2, Fin 1, Fin (2345624805922133 / 70368744177664))]
   \<and> Fin (2345624805922133 / 70368744177664) \<noteq> Fin ((3 - 2) / 3 * 100)
   \<and> map (\<lambda>r. (w_size r, w_available r, w_used r))
       (parseFunction_win32_disk ''C: 9007199254740993 9007199254740992'')
     = [(Fin 9007199254740992, Fin 9007199254740992, Fin 0)]
   \<and> Fin 0 \<noteq> Fin (9007199254740992 - 9007199254740993)"
  using disk_2_3 disk_2p53 by simp




section \<open>Uptime\<close>

lemma regrid:
  assumes "x = real_of_int m * 2 powi g" and "g' \<le> g"
  shows "\<exists>m'. x = real_of_int m' * 2 powi g'"
proof -
  define k where "k = nat (g - g')"
  have "g = g' + int k" using assms(2) by (simp add: k_def)
  then have "(2::real) powi g = 2 powi g' * 2 powi (int k)" by (simp add: power_int_add)
  then have "(2::real) powi g = 2 powi g' * 2 ^ k" by (simp only: power_int_of_nat)
  with assms(1) have "x = of_int (m * 2 ^ k) * 2 powi g'"
    by (simp only: of_int_mult of_int_power of_int_numeral mult.assoc mult.commute [of "2 ^ k"])
  then show ?thesis ..
qed

text \<open>
  Dividing a double \<open>x\<close> by \<open>d = c * 2^t\<close>: when \<open>x\<close> is a whole multiple of \<open>2^g\<close> with
  \<open>g \<le> t\<close> and \<open>x < 2^(g + 53)\<close>, the rounded quotient has the floor of the exact one.
\<close>

lemma floor_quotient:
  assumes x0: "0 \<le> x" and grid: "x = of_int m * 2 powi g" and xg: "x < 2 powi (g + 53)"
    and gt: "g \<le> t" and d: "d = of_int c * 2 powi t" and c: "0 < c"
    and small: "x / d < 2 ^ 53"
  shows "\<exists>q. round64 (x / d) = Fin q \<and> \<lfloor>q\<rfloor> = \<lfloor>x / d\<rfloor>"
proof -
  define Q where "Q = x / d"
  define k where "k = \<lfloor>Q\<rfloor> + 1"
  have dp: "0 < d" using c by (simp add: d)
  have Q0: "0 \<le> Q" using x0 dp by (simp add: Q_def)
  have Qk: "Q < of_int k" and kQ: "of_int k - 1 \<le> Q" by (simp_all add: k_def)
  have k1: "1 \<le> k" using Q0 by (simp add: k_def)
  obtain j where j: "d * of_int k = of_int j * 2 powi g"
  proof -
    have "d * of_int k = of_int (c * k) * 2 powi t" by (simp add: d)
    from regrid [OF this gt] show ?thesis using that by blast
  qed
  have "x < d * of_int k" using Qk dp by (simp add: Q_def pos_divide_less_eq mult.commute)
  then have "real_of_int m * 2 powi g < of_int j * 2 powi g" by (simp only: grid j)
  then have "real_of_int m < of_int j" by (simp add: mult_less_cancel_right)
  then have "m + 1 \<le> j" by simp
  then have "real_of_int (m + 1) \<le> of_int j" by (simp only: of_int_le_iff)
  then have "real_of_int (m + 1) * 2 powi g \<le> of_int j * 2 powi g" by (rule mult_right_mono) simp
  then have gap: "2 powi g \<le> d * of_int k - x" by (simp add: grid j algebra_simps)
  have "\<bar>Q\<bar> < 2 powi 1023"
  proof -
    have "(2::real) ^ 53 < 2 powi 1023" by simp
    with small Q0 show ?thesis by (simp add: Q_def)
  qed
  from round64_finite_err [OF this] obtain q where q: "round64 Q = Fin q" "\<bar>q - Q\<bar> \<le> ulp Q / 2"
    by blast
  have lower: "of_int (k - 1) \<le> q"
  proof -
    have "real_of_int (k - 1) \<le> Q" using kQ by simp
    moreover have "0 \<le> real_of_int (k - 1)" using k1 by simp
    ultimately have "js_ge (round64 Q) (round64 (of_int (k - 1)))" by (intro round64_mono_nonneg)
    moreover have "real_of_int (k - 1) \<le> of_int (2 ^ 53)"
      using \<open>real_of_int (k - 1) \<le> Q\<close> small by (simp add: Q_def)
    then have "k - 1 \<le> 2 ^ 53" by (simp only: of_int_le_iff)
    then have "\<bar>k - 1\<bar> \<le> 2 ^ 53" using k1 by simp
    then have "round64 (of_int (k - 1)) = Fin (of_int (k - 1))" by (rule round64_int)
    ultimately show ?thesis by (simp add: q(1) js_ge_def)
  qed
  have upper: "q < of_int k"
  proof (cases "expo Q = - 1022")
    case True
    have "\<bar>Q\<bar> < 2 powi 1025" using \<open>\<bar>Q\<bar> < 2 powi 1023\<close> pow2_mono [of 1023 1025] by simp
    then have "\<bar>Q\<bar> < 2 powi (expo Q + 1)" by (rule expo_upper)
    then have "Q < 2 powi (- 1021)" using True Q0 by simp
    moreover have "ulp Q = 2 powi (- 1074)" using True by (simp add: ulp_def)
    moreover have "(2::real) powi (- 1021) + 2 powi (- 1074) / 2 < 1"
      by (simp add: power_int_minus_divide)
    ultimately have "q < 1" using q(2) by linarith
    moreover have "(1::real) \<le> of_int k" using k1 by simp
    ultimately show ?thesis by linarith
  next
    case False
    with expo_lower [of Q] Q0 have l: "2 powi (expo Q) \<le> Q" by simp
    have "ulp Q / 2 = 2 powi (expo Q) / 2 ^ 53"
      by (simp add: ulp_def power_int_diff)
    also have "\<dots> \<le> Q / 2 ^ 53" using l by (simp add: divide_right_mono)
    also have "\<dots> = x / 2 ^ 53 / d" by (simp add: Q_def)
    also have "\<dots> < 2 powi (g + 53) / 2 ^ 53 / d"
      using xg dp by (simp add: divide_strict_right_mono)
    also have "2 powi (g + 53) / 2 ^ 53 / d = 2 powi g / d" by (simp add: power_int_add)
    also have "\<dots> \<le> (d * of_int k - x) / d" using gap dp by (simp add: divide_right_mono)
    also have "\<dots> = of_int k - Q" using dp by (simp add: Q_def diff_divide_distrib)
    finally have "ulp Q / 2 < of_int k - Q" .
    with q(2) show ?thesis by linarith
  qed
  have "\<lfloor>q\<rfloor> = k - 1" using lower upper by (intro floor_unique) simp_all
  then have "\<lfloor>q\<rfloor> = \<lfloor>Q\<rfloor>" by (simp add: k_def)
  with q(1) show ?thesis unfolding Q_def by blast
qed









lemma big_seconds_double: "is_double 1519964874237628672"
proof -
  have "(1519964874237628672 :: real) = of_int 5937362789990737 * 2 powi 8" by simp
  moreover have "\<bar>1519964874237628672 :: real\<bar> < 2 powi (60 + 1)" by simp
  then have "expo 1519964874237628672 \<le> 60" by (intro expo_le_iff) simp_all
  then have "expo 1519964874237628672 - 52 \<le> 8" by simp
  moreover have "\<bar>1519964874237628672 :: real\<bar> < 2 ^ 1024" by simp
  ultimately have "round64 1519964874237628672 = Fin 1519964874237628672" by (rule round64_exact)
  then show ?thesis by (simp add: is_double_def)
qed

lemma big_seconds_days:
  "js_div (Fin 1519964874237628672) (Fin 86400) = Fin 17592186044417"
  using round64_eval [of 44 "1519964874237628672 / 86400" 4503599627370752]
  by (simp add: round_even_def)

lemma big_seconds_format:
  "formatUptime (\<lambda>r. ''?'') (Fin 1519964874237628672) = ''17592186044417d 23h 57m''"
proof -
  have m1: "js_mod (Fin 1519964874237628672) (Fin 86400) = Fin 86272"
    and m2: "js_mod (Fin 1519964874237628672) (Fin 3600) = Fin 3472"
    by (simp_all add: trunc_def)
  have "\<exists>q. round64 (86272 / 3600) = Fin q \<and> \<lfloor>q\<rfloor> = \<lfloor>86272 / 3600 :: real\<rfloor>"
    by (rule floor_quotient [of 86272 86272 0 4 3600 225]) simp_all
  then obtain q2 where q2: "js_div (Fin 86272) (Fin 3600) = Fin q2" "\<lfloor>q2\<rfloor> = 23" by auto
  have "\<exists>q. round64 (3472 / 60) = Fin q \<and> \<lfloor>q\<rfloor> = \<lfloor>3472 / 60 :: real\<rfloor>"
    by (rule floor_quotient [of 3472 3472 0 2 60 15]) simp_all
  then obtain q3 where q3: "js_div (Fin 3472) (Fin 60) = Fin q3" "\<lfloor>q3\<rfloor> = 57" by auto
  show ?thesis
    by (simp add: formatUptime_def big_seconds_days m1 m2 q2 q3 js_gt_def NumberToString_def
        nat_digits.simps del: js_div.simps js_mod.simps)
qed

text \<open>
  Claim C9, as stated, fails for large inputs. At the double \<open>1519964874237628672\<close> the
  quotient \<open>seconds / 86400\<close> rounds up to \<open>17592186044417\<close>, one more than the floor of
  the exact quotient, and \<open>formatUptime\<close> prints one day more than the specification's
  formatter.
\<close>

theorem formatUptime_differs_from_spec:
  "is_double 1519964874237628672
   \<and> formatUptime (\<lambda>r. ''?'') (Fin 1519964874237628672) = ''17592186044417d 23h 57m''
   \<and> UptimeFormatter_spec (\<lambda>r. ''?'') 1519964874237628672 = ''17592186044416d 23h 57m''"
proof -
  have "UptimeFormatter_spec (\<lambda>r. ''?'') 1519964874237628672 = ''17592186044416d 23h 57m''"
    by (simp add: UptimeFormatter_spec_def real_mod_def NumberToString_def nat_digits.simps)
  with big_seconds_double big_seconds_format show ?thesis by simp
qed

end
